theory Spec2Isabelle
  imports Complex_Main
begin

section \<open>Strings of the program\<close>

text \<open>
  The parser works on JavaScript strings. They are modelled as \<^typ>\<open>string\<close>: every
  character is one code unit in the range 0 to 255 (Latin-1), and \<open>length\<close> is the
  string's \<open>length\<close>. The character classes below are the ones the source's regular
  expressions and string methods use, restricted to that range:
  \<^item> \<open>isSpace\<close>: what \<open>trim()\<close> strips and \<open>\s\<close> matches (tab, line feed, vertical tab,
    form feed, carriage return, space, no-break space);
  \<^item> \<open>isDigit\<close>: \<open>\d\<close>; \<open>isWord\<close>: \<open>\w\<close>; \<open>isLowerAZ\<close>: \<open>[a-z]\<close>; \<open>isUpperAZ\<close>: \<open>[A-Z]\<close>;
  \<^item> \<open>toLowerCase\<close>: \<open>String.prototype.toLowerCase\<close> on one character.
\<close>

definition code :: "char \<Rightarrow> nat" where
  "code c = of_char c"

definition isSpace :: "char \<Rightarrow> bool" where
  "isSpace c = (code c \<in> {9, 10, 11, 12, 13, 32, 160})"

definition isDigit :: "char \<Rightarrow> bool" where
  "isDigit c = (48 \<le> code c \<and> code c \<le> 57)"

definition isLowerAZ :: "char \<Rightarrow> bool" where
  "isLowerAZ c = (97 \<le> code c \<and> code c \<le> 122)"

definition isUpperAZ :: "char \<Rightarrow> bool" where
  "isUpperAZ c = (65 \<le> code c \<and> code c \<le> 90)"

definition isWord :: "char \<Rightarrow> bool" where
  "isWord c = (isLowerAZ c \<or> isUpperAZ c \<or> isDigit c \<or> code c = 95)"

definition toLowerCase :: "char \<Rightarrow> char" where
  "toLowerCase c =
     (if isUpperAZ c \<or> (192 \<le> code c \<and> code c \<le> 222 \<and> code c \<noteq> 215)
      then char_of (code c + 32) else c)"

text \<open>\<open>s.trim()\<close>: white space is removed at both ends.\<close>

definition trim :: "string \<Rightarrow> string" where
  "trim s = rev (dropWhile isSpace (rev (dropWhile isSpace s)))"

text \<open>\<open>s.endsWith(c)\<close> for a one-character string \<open>c\<close>.\<close>

definition endsWith :: "string \<Rightarrow> char \<Rightarrow> bool" where
  "endsWith s c = (s \<noteq> [] \<and> last s = c)"

text \<open>\<open>s.match(/[.!?]$/)\<close>: the last character is a full stop, \<open>!\<close> or \<open>?\<close>.\<close>

definition endsWithPunctuation :: "string \<Rightarrow> bool" where
  "endsWithPunctuation s = (s \<noteq> [] \<and> last s \<in> {CHR ''.'', CHR ''!'', CHR ''?''})"

text \<open>
  The test \<open>t[0] && t[0].toLowerCase() === t[0]\<close> of the source: the string is not
  empty and lowering its first character does not change it.
\<close>

definition startsLowercase :: "string \<Rightarrow> bool" where
  "startsLowercase t = (case t of [] \<Rightarrow> False | c # _ \<Rightarrow> toLowerCase c = c)"

text \<open>
  A prefix test that ignores the case of ASCII letters, as a regular expression with the
  flag \<open>i\<close> does for a pattern of ASCII characters: it returns what follows the prefix.
\<close>

fun ciPrefix :: "string \<Rightarrow> string \<Rightarrow> string option" where
  "ciPrefix [] s = Some s"
| "ciPrefix (p # ps) [] = None"
| "ciPrefix (p # ps) (c # cs) =
     (if (if isUpperAZ c then char_of (code c + 32) else c) = p then ciPrefix ps cs else None)"

text \<open>The leftmost position of a string at which a matcher succeeds.\<close>

fun firstMatch :: "(string \<Rightarrow> 'a option) \<Rightarrow> string \<Rightarrow> 'a option" where
  "firstMatch f [] = f []"
| "firstMatch f (c # cs) = (case f (c # cs) of Some x \<Rightarrow> Some x | None \<Rightarrow> firstMatch f cs)"

section \<open>Numbers\<close>

text \<open>
  A font size is the result of \<open>parseFloat\<close>: a number or \<open>NaN\<close>. The model keeps the exact
  value of the decimal literal as a rational number (the rounding to a double is left
  out), and \<open>NaN\<close> as a value of its own: every comparison with \<open>NaN\<close> is false and
  \<open>Math.max\<close> returns \<open>NaN\<close> when an argument is \<open>NaN\<close>.
\<close>

datatype number = NaN | Num rat

fun gt :: "number \<Rightarrow> rat \<Rightarrow> bool" where
  "gt NaN r = False"
| "gt (Num x) r = (r < x)"

fun mathMax :: "number \<Rightarrow> number \<Rightarrow> number" where
  "mathMax (Num x) (Num y) = Num (max x y)"
| "mathMax _ _ = NaN"

fun digitsValue :: "nat \<Rightarrow> string \<Rightarrow> nat" where
  "digitsValue acc [] = acc"
| "digitsValue acc (c # cs) = digitsValue (10 * acc + (code c - 48)) cs"

text \<open>
  \<open>parseFloat\<close> on a string of digits and full stops (what \<open>[\d.]+\<close> captures): the longest
  prefix that is a decimal literal, and \<open>NaN\<close> when there is none.
\<close>

definition parseFloat :: "string \<Rightarrow> number" where
  "parseFloat s =
     (let ip = takeWhile isDigit s; r = dropWhile isDigit s;
          fp = (case r of [] \<Rightarrow> [] | c # cs \<Rightarrow> if c = CHR ''.'' then takeWhile isDigit cs else [])
      in if ip = [] \<and> fp = [] then NaN
         else Num (of_nat (digitsValue 0 ip) + of_nat (digitsValue 0 fp) / 10 ^ length fp))"

section \<open>Style attribute and heading classifier\<close>

record fontProperties =
  fontSize :: number
  isBold :: bool

text \<open>\<open>/font-size:\s*([\d.]+)pt/i\<close> at the start of a string: the captured number text.\<close>

definition fontSizeAt :: "string \<Rightarrow> string option" where
  "fontSizeAt s =
     (case ciPrefix ''font-size:'' s of
        None \<Rightarrow> None
      | Some r \<Rightarrow>
          (let r1 = dropWhile isSpace r;
               num = takeWhile (\<lambda>c. isDigit c \<or> c = CHR ''.'') r1;
               r2 = dropWhile (\<lambda>c. isDigit c \<or> c = CHR ''.'') r1
           in if num \<noteq> [] \<and> ciPrefix ''pt'' r2 \<noteq> None then Some num else None))"

text \<open>\<open>/font-weight:\s*(bold|\d+)/i\<close> at the start of a string: the captured text.\<close>

definition fontWeightAt :: "string \<Rightarrow> string option" where
  "fontWeightAt s =
     (case ciPrefix ''font-weight:'' s of
        None \<Rightarrow> None
      | Some r \<Rightarrow>
          (let r1 = dropWhile isSpace r in
           if ciPrefix ''bold'' r1 \<noteq> None then Some (take 4 r1)
           else if takeWhile isDigit r1 \<noteq> [] then Some (takeWhile isDigit r1)
           else None))"

text \<open>
  \<open>parseStyle\<close>. The captured weight is compared with the literal \<open>bold\<close> as it stands, and
  otherwise read by \<open>parseInt\<close> (\<open>NaN\<close> for a \<open>bold\<close> in another case, so not bold).
  The italic flag is computed by the source and used nowhere; it is left out.
\<close>

definition parseStyle :: "string \<Rightarrow> fontProperties" where
  "parseStyle style =
     \<lparr> fontSize = (case firstMatch fontSizeAt style of None \<Rightarrow> Num 0 | Some n \<Rightarrow> parseFloat n),
       isBold = (case firstMatch fontWeightAt style of
                   None \<Rightarrow> False
                 | Some w \<Rightarrow> w = ''bold'' \<or> (list_all isDigit w \<and> 600 \<le> digitsValue 0 w)) \<rparr>"

definition isLikelyHeading :: "string \<Rightarrow> number \<Rightarrow> bool \<Rightarrow> bool" where
  "isLikelyHeading text fs bold =
     (gt fs 14 \<or>
      (gt fs 12 \<and> bold) \<or>
      (bold \<and> length text < 200 \<and> CHR ''.'' \<notin> set text \<and>
         \<not> (takeWhile isDigit text \<noteq> [] \<and>
            (case dropWhile isDigit text of [] \<Rightarrow> False | c # _ \<Rightarrow> c = CHR ''.''))) \<or>
      (gt fs 16 \<and> length text < 300))"

definition getHeadingLevel :: "number \<Rightarrow> bool \<Rightarrow> int" where
  "getHeadingLevel fs bold =
     (if gt fs 20 then 1
      else if gt fs 18 then 2
      else if gt fs 16 then 2
      else if gt fs 14 then 3
      else if bold \<and> gt fs 12 then 3
      else 3)"

section \<open>Markup tree and sections\<close>

text \<open>
  The markup tree is the tree the browser builds from a page's markup string: a text node,
  or an element with the lower-case form of its tag name (\<open>tagName.toLowerCase()\<close>), its
  attributes and its child nodes. The parser takes the child nodes of the root it fills
  (\<open>tempDiv\<close>).
\<close>

datatype node = TextNode string | Element string "(string \<times> string) list" "node list"

fun tagName :: "node \<Rightarrow> string" where
  "tagName (TextNode t) = []"
| "tagName (Element tg as cs) = tg"

fun getAttribute :: "node \<Rightarrow> string \<Rightarrow> string option" where
  "getAttribute (TextNode t) a = None"
| "getAttribute (Element tg as cs) a = map_of as a"

fun childNodes :: "node \<Rightarrow> node list" where
  "childNodes (TextNode t) = []"
| "childNodes (Element tg as cs) = cs"

fun isElement :: "node \<Rightarrow> bool" where
  "isElement (TextNode t) = False"
| "isElement (Element tg as cs) = True"

fun textContent :: "node \<Rightarrow> string" where
  "textContent (TextNode t) = t"
| "textContent (Element tg as cs) = concat (map textContent cs)"

text \<open>\<open>el.querySelectorAll('*')\<close>: the elements below \<open>el\<close>, in document order.\<close>

fun descendants :: "node \<Rightarrow> node list" where
  "descendants (TextNode t) = []"
| "descendants (Element tg as cs) =
     concat (map (\<lambda>c. (if isElement c then [c] else []) @ descendants c) cs)"

text \<open>\<open>el.firstElementChild\<close>.\<close>

definition firstElementChild :: "node \<Rightarrow> node option" where
  "firstElementChild el = (case filter isElement (childNodes el) of [] \<Rightarrow> None | c # _ \<Rightarrow> Some c)"

text \<open>\<open>/^h[1-6]$/\<close> on a tag name: the level the tag names.\<close>

definition headingTagLevel :: "string \<Rightarrow> int option" where
  "headingTagLevel tg =
     (case tg of
        [h, d] \<Rightarrow> if h = CHR ''h'' \<and> 49 \<le> code d \<and> code d \<le> 54 then Some (int (code d) - 48) else None
      | _ \<Rightarrow> None)"

datatype sectionType = Heading | Paragraph | Image

record image =
  src :: string

record Section =
  type :: sectionType
  content :: string
  level :: int
  images :: "image list"

definition createSection :: "sectionType \<Rightarrow> string \<Rightarrow> int \<Rightarrow> image list \<Rightarrow> Section" where
  "createSection ty c l ims = \<lparr> type = ty, content = c, level = l, images = ims \<rparr>"

section \<open>Font properties of an element\<close>

definition styleOf :: "node \<Rightarrow> string" where
  "styleOf el = (case getAttribute el ''style'' of None \<Rightarrow> [] | Some s \<Rightarrow> s)"

definition isBoldTag :: "node \<Rightarrow> bool" where
  "isBoldTag el = (tagName el = ''b'' \<or> tagName el = ''strong'')"

definition extractFontProperties :: "node \<Rightarrow> fontProperties" where
  "extractFontProperties el =
     (let ownStyle = parseStyle (styleOf el);
          maxFontSize = mathMax (Num 0) (fontSize ownStyle);
          bold = isBold ownStyle;
          bold = (if filter isBoldTag (descendants el) \<noteq> [] then True else bold)
      in fold (\<lambda>child acc.
                 (let childProps = parseStyle (styleOf child)
                  in \<lparr> fontSize = mathMax (fontSize acc) (fontSize childProps),
                       isBold = (if isBold childProps \<or> tagName child = ''b'' \<or> tagName child = ''strong''
                                 then True else isBold acc) \<rparr>))
              (descendants el) \<lparr> fontSize = maxFontSize, isBold = bold \<rparr>)"

section \<open>Segmenter\<close>

text \<open>
  An element is identified by its path from the root: the list of child indices, the
  innermost first, so that the parent of \<open>i # p\<close> is \<open>p\<close> and the root is \<open>[]\<close>. The set
  \<open>processedElements\<close> of the source is a set of paths.
\<close>

type_synonym path = "nat list"

fun isParentProcessed :: "path \<Rightarrow> path set \<Rightarrow> bool" where
  "isParentProcessed [] processed = False"
| "isParentProcessed (i # parent) processed =
     (parent \<noteq> [] \<and> (parent \<in> processed \<or> isParentProcessed parent processed))"

text \<open>
  \<open>extractNestedHeading\<close>: the heading section and the remaining text, or \<open>None\<close> for
  \<open>null\<close>. The clone's first element child has the text of the original's, so it is always
  removed: the remaining text is the text of the other child nodes.
\<close>

definition removeFirstElementChild :: "node list \<Rightarrow> node list" where
  "removeFirstElementChild cs =
     takeWhile (\<lambda>c. \<not> isElement c) cs @ drop 1 (dropWhile (\<lambda>c. \<not> isElement c) cs)"

definition extractNestedHeading :: "node \<Rightarrow> (Section \<times> string) option" where
  "extractNestedHeading el =
     (case firstElementChild el of
        None \<Rightarrow> None
      | Some firstChild \<Rightarrow>
          (let firstTag = tagName firstChild;
               props = extractFontProperties el;
               headingText = trim (textContent firstChild)
           in if headingText = [] then None
              else
                (let isHeadingTag = headingTagLevel firstTag;
                     isHeadingStyle = (gt (fontSize props) 14 \<or> (isBold props \<and> length headingText < 200))
                 in if isHeadingTag = None \<and> \<not> isHeadingStyle then None
                    else
                      (let lvl = (case isHeadingTag of
                                    Some l \<Rightarrow> l
                                  | None \<Rightarrow> if gt (fontSize props) 18 then 1
                                            else if gt (fontSize props) 16 then 2 else 3);
                           remainingText =
                             trim (concat (map textContent (removeFirstElementChild (childNodes el))))
                       in Some (createSection Heading headingText lvl [], remainingText)))))"

definition processImage :: "path \<Rightarrow> node \<Rightarrow> path set \<Rightarrow> Section option \<times> path set" where
  "processImage p el processed =
     (case getAttribute el ''src'' of
        None \<Rightarrow> (None, processed)
      | Some s \<Rightarrow> if s = [] then (None, processed)
                  else (Some (createSection Image [] 0 [\<lparr> src = s \<rparr>]), insert p processed))"

text \<open>
  \<open>parseInt(tagName.charAt(1))\<close>: the digit at the second place of the tag name, and
  \<open>None\<close> for \<open>NaN\<close> (no second character, or one that is no digit).
\<close>

definition parseIntCharAt1 :: "string \<Rightarrow> int option" where
  "parseIntCharAt1 tg =
     (case tg of
        h # d # _ \<Rightarrow> if isDigit d then Some (int (code d) - 48) else None
      | _ \<Rightarrow> None)"

text \<open>
  \<open>processHeading\<close>: the level is the digit of the tag name (\<open>h7\<close> would give level 7).
  The parser calls it for the tags \<open>h1\<close> to \<open>h6\<close> only. (For a tag without such a digit
  the source's level would be \<open>NaN\<close>, which an integer level does not hold; the model
  returns no section there.)
\<close>

definition processHeading :: "path \<Rightarrow> node \<Rightarrow> path set \<Rightarrow> Section option \<times> path set" where
  "processHeading p el processed =
     (let text = trim (textContent el)
      in if text = [] then (None, processed)
         else (case parseIntCharAt1 (tagName el) of
                 None \<Rightarrow> (None, processed)
               | Some lvl \<Rightarrow> (Some (createSection Heading text lvl []), insert p processed)))"

text \<open>
  \<open>processTextElement\<close>: \<open>None\<close> for \<open>null\<close>; a single section and an array of sections
  are both a list, since the caller pushes the elements of either.
\<close>

definition processTextElement ::
  "path \<Rightarrow> node \<Rightarrow> string \<Rightarrow> path set \<Rightarrow> Section list option \<times> path set" where
  "processTextElement p el tg processed =
     (let text = trim (textContent el)
      in if text = [] then (None, processed)
         else
           (let props = extractFontProperties el;
                nested = (if tg = ''p'' \<or> tg = ''div'' then extractNestedHeading el else None)
            in case nested of
                 Some (heading, remainingText) \<Rightarrow>
                   (Some (heading # (if remainingText \<noteq> []
                                     then [createSection Paragraph remainingText 0 []] else [])),
                    insert p processed)
               | None \<Rightarrow>
                   if isLikelyHeading text (fontSize props) (isBold props)
                   then (Some [createSection Heading text (getHeadingLevel (fontSize props) (isBold props)) []],
                         insert p processed)
                   else if tg = ''p'' \<or> tg = ''div''
                   then (Some [createSection Paragraph text 0 []], insert p processed)
                   else if tg = ''span'' \<and> 50 < length text
                   then (Some [createSection Paragraph text 0 []], insert p processed)
                   else (None, processed)))"

text \<open>\<open>isPageMarker\<close>: a \<open>div\<close> whose \<open>id\<close> matches \<open>/^page\d+$/\<close>.\<close>

definition isPageMarker :: "node \<Rightarrow> bool" where
  "isPageMarker el =
     (if tagName el \<noteq> ''div'' then False
      else (let ident = (case getAttribute el ''id'' of None \<Rightarrow> [] | Some s \<Rightarrow> s)
            in take 4 ident = ''page'' \<and> drop 4 ident \<noteq> [] \<and> list_all isDigit (drop 4 ident)))"

text \<open>
  The body of the loop over the tree walker's elements: the state is the set
  \<open>processedElements\<close> and the array \<open>sections\<close>.
\<close>

type_synonym walkState = "path set \<times> Section list"

definition visit :: "path \<Rightarrow> node \<Rightarrow> walkState \<Rightarrow> walkState" where
  "visit p el st =
     (let processed = fst st; sections = snd st; tg = tagName el
      in if p \<in> processed then st
         else if isPageMarker el then st
         else if isParentProcessed p processed then st
         else if tg = ''img'' then
           (case processImage p el processed of
              (None, processed') \<Rightarrow> (processed', sections)
            | (Some s, processed') \<Rightarrow> (processed', sections @ [s]))
         else if headingTagLevel tg \<noteq> None then
           (case processHeading p el processed of
              (None, processed') \<Rightarrow> (processed', sections)
            | (Some s, processed') \<Rightarrow> (processed', sections @ [s]))
         else if tg = ''p'' \<or> tg = ''div'' \<or> tg = ''span'' then
           (case processTextElement p el tg processed of
              (None, processed') \<Rightarrow> (processed', sections)
            | (Some ss, processed') \<Rightarrow> (processed', sections @ ss))
         else st)"

text \<open>
  The tree walker with \<open>SHOW_ELEMENT\<close> yields the elements below the root in document
  order (pre-order): an element, then the nodes below it, child by child.
\<close>

fun walk :: "path \<Rightarrow> node \<Rightarrow> walkState \<Rightarrow> walkState"
  and walkChildren :: "path \<Rightarrow> nat \<Rightarrow> node list \<Rightarrow> walkState \<Rightarrow> walkState" where
  "walk p (TextNode t) st = st"
| "walk p (Element tg as cs) st = walkChildren p 0 cs (visit p (Element tg as cs) st)"
| "walkChildren p i [] st = st"
| "walkChildren p i (c # cs) st = walkChildren p (Suc i) cs (walk (i # p) c st)"

section \<open>Pass 1: hyphenation repair\<close>

text \<open>
  One match of \<open>/(\w{2,})-\s*\n?\s*([a-z])/\<close> at the start of a string: the word, the
  lower-case letter and the rest of the string after the match. The word is the whole run
  of word characters (a hyphen must follow it, and a hyphen is no word character), and the
  white space between the hyphen and the letter is the whole run of white space (the
  letter is no white space).
\<close>

definition hyphenMatchAt :: "string \<Rightarrow> (string \<times> char \<times> string) option" where
  "hyphenMatchAt s =
     (let w = takeWhile isWord s; r = dropWhile isWord s
      in if length w < 2 then None
         else (case r of
                 [] \<Rightarrow> None
               | h # r' \<Rightarrow>
                   if h \<noteq> CHR ''-'' then None
                   else (case dropWhile isSpace r' of
                           [] \<Rightarrow> None
                         | l # rest \<Rightarrow> if isLowerAZ l then Some (w, l, rest) else None)))"

lemma hyphenMatchAt_shorter:
  assumes "hyphenMatchAt s = Some (w, l, rest)"
  shows "length rest < length s"
proof -
  obtain r' where r: "dropWhile isWord s = CHR ''-'' # r'" and d: "dropWhile isSpace r' = l # rest"
    using assms
    by (auto simp: hyphenMatchAt_def Let_def split: if_splits list.splits)
  have "length (l # rest) \<le> length r'"
    using length_dropWhile_le [of isSpace r'] d by simp
  moreover have "length (CHR ''-'' # r') \<le> length s"
    using length_dropWhile_le [of isWord s] r by simp
  ultimately show ?thesis by simp
qed

text \<open>
  \<open>text.replace(/(\w{2,})-\s*\n?\s*([a-z])/g, '$1$2')\<close>: the string is scanned from the
  left; a match is replaced by its word and its letter and the scan goes on after the
  match; where there is no match the character is kept.
\<close>

function fixHyphenatedWords :: "string \<Rightarrow> string" where
  "fixHyphenatedWords [] = []"
| "fixHyphenatedWords (c # cs) =
     (case hyphenMatchAt (c # cs) of
        Some (w, l, rest) \<Rightarrow> w @ l # fixHyphenatedWords rest
      | None \<Rightarrow> c # fixHyphenatedWords cs)"
  by pat_completeness auto
termination
  by (relation "measure length") (auto dest: hyphenMatchAt_shorter)

text \<open>
  \<open>mergeHyphenatedWords\<close>: the loop over the index \<open>i\<close> is a recursion on the rest of the
  array from \<open>i\<close> on; a merge skips the next section.
\<close>

definition fixContent :: "Section \<Rightarrow> Section" where
  "fixContent current =
     (if content current \<noteq> [] then current\<lparr> content := fixHyphenatedWords (content current) \<rparr>
      else current)"

fun mergeHyphenatedWords :: "Section list \<Rightarrow> Section list" where
  "mergeHyphenatedWords [] = []"
| "mergeHyphenatedWords [c] = [fixContent c]"
| "mergeHyphenatedWords (c # next # rest) =
     (if type (fixContent c) = Paragraph \<and> type next = Paragraph \<and>
         endsWith (trim (content (fixContent c))) CHR ''-'' \<and>
         0 < length (trim (content next)) \<and> startsLowercase (trim (content next))
      then createSection Paragraph
             (fixHyphenatedWords (butlast (trim (content (fixContent c))) @ trim (content next))) 0 []
             # mergeHyphenatedWords rest
      else fixContent c # mergeHyphenatedWords (next # rest))"

section \<open>Pass 2: paragraph merge\<close>

definition shouldMerge :: "string \<Rightarrow> string \<Rightarrow> bool" where
  "shouldMerge currentText nextText =
     (let currentEndsWithPunctuation = endsWithPunctuation currentText;
          nextStartsLowercase = startsLowercase nextText;
          currentEndsWithHyphen = endsWith currentText CHR ''-'';
          currentIsShortIncomplete = (length currentText < 100 \<and> \<not> currentEndsWithPunctuation)
      in (\<not> currentEndsWithPunctuation \<and> nextStartsLowercase) \<or>
         currentEndsWithHyphen \<or>
         (currentIsShortIncomplete \<and> nextStartsLowercase))"

text \<open>One scan of the inner loop: the new array and the flag \<open>changed\<close>.\<close>

fun scanParagraphs :: "Section list \<Rightarrow> Section list \<times> bool" where
  "scanParagraphs [] = ([], False)"
| "scanParagraphs [c] = ([c], False)"
| "scanParagraphs (current # next # rest) =
     (if type current = Paragraph \<and> type next = Paragraph then
        (if trim (content next) = [] then
           (case scanParagraphs (next # rest) of (newMerged, changed) \<Rightarrow> (current # newMerged, changed))
         else if shouldMerge (trim (content current)) (trim (content next)) then
           (case scanParagraphs rest of
              (newMerged, changed) \<Rightarrow>
                (createSection Paragraph (content current @ '' '' @ content next) 0 [] # newMerged, True))
         else
           (case scanParagraphs (next # rest) of (newMerged, changed) \<Rightarrow> (current # newMerged, changed)))
      else
        (case scanParagraphs (next # rest) of (newMerged, changed) \<Rightarrow> (current # newMerged, changed)))"

text \<open>The scan merges the pair at the front, or it keeps the first section.\<close>

definition mergesPair :: "Section \<Rightarrow> Section \<Rightarrow> bool" where
  "mergesPair current next =
     (type current = Paragraph \<and> type next = Paragraph \<and> trim (content next) \<noteq> [] \<and>
      shouldMerge (trim (content current)) (trim (content next)))"

lemma scanParagraphs_pair:
  "scanParagraphs (current # next # rest) =
     (if mergesPair current next
      then (createSection Paragraph (content current @ '' '' @ content next) 0 []
              # fst (scanParagraphs rest), True)
      else (current # fst (scanParagraphs (next # rest)), snd (scanParagraphs (next # rest))))"
  by (simp add: mergesPair_def split: prod.splits)

lemma scanParagraphs_length:
  "length (fst (scanParagraphs ss)) \<le> length ss \<and>
   (snd (scanParagraphs ss) \<longrightarrow> length (fst (scanParagraphs ss)) < length ss)"
  by (induction ss rule: induct_list012)
     (auto simp: scanParagraphs_pair simp del: scanParagraphs.simps(3))

text \<open>The outer loop: scans are repeated until one changes nothing.\<close>

function mergeAdjacentParagraphs :: "Section list \<Rightarrow> Section list" where
  "mergeAdjacentParagraphs merged =
     (case scanParagraphs merged of
        (newMerged, changed) \<Rightarrow> if changed then mergeAdjacentParagraphs newMerged else newMerged)"
  by pat_completeness auto
termination
proof (relation "measure length")
  show "wf (measure length)" by simp
next
  fix merged x :: "Section list" and y :: bool
  assume "(x, y) = scanParagraphs merged" and "y"
  then show "(x, merged) \<in> measure length"
    using scanParagraphs_length [of merged] by (cases "scanParagraphs merged") auto
qed

section \<open>Pass 3: heading merge\<close>

text \<open>
  \<open>/^(of|and|the|a|an|in|on|at|to|for|with|by)\s/i\<close>: one of the words, in any case, at
  the start of the line, and a white space character after it.
\<close>

definition continuationWords :: "string list" where
  "continuationWords =
     [''of'', ''and'', ''the'', ''a'', ''an'', ''in'', ''on'', ''at'', ''to'', ''for'', ''with'', ''by'']"

definition startsWithContinuationWord :: "string \<Rightarrow> bool" where
  "startsWithContinuationWord line =
     list_ex (\<lambda>w. case ciPrefix w line of Some (c # _) \<Rightarrow> isSpace c | _ \<Rightarrow> False) continuationWords"

definition looksLikeContinuation :: "string \<Rightarrow> bool" where
  "looksLikeContinuation line =
     (length line < 50 \<and>
      (startsWithContinuationWord line \<or>
       (\<not> (case line of [] \<Rightarrow> False | c # _ \<Rightarrow> isUpperAZ c) \<and> length line < 30)))"

text \<open>\<open>t.split('\n')[0]\<close> and \<open>t.split('\n').slice(1).join('\n')\<close>.\<close>

definition firstLineOf :: "string \<Rightarrow> string" where
  "firstLineOf t = takeWhile (\<lambda>c. c \<noteq> CHR 0x0A) t"

definition remainingLinesOf :: "string \<Rightarrow> string" where
  "remainingLinesOf t = drop 1 (dropWhile (\<lambda>c. c \<noteq> CHR 0x0A) t)"

text \<open>The constants \<open>firstLine\<close> and \<open>remainingLines\<close> of the loop body, from the next section.\<close>

definition firstLine :: "Section \<Rightarrow> string" where
  "firstLine next = trim (firstLineOf (trim (content next)))"

definition remainingLines :: "Section \<Rightarrow> string" where
  "remainingLines next = trim (remainingLinesOf (trim (content next)))"

fun mergeAdjacentHeadings :: "Section list \<Rightarrow> Section list" where
  "mergeAdjacentHeadings [] = []"
| "mergeAdjacentHeadings [c] = [c]"
| "mergeAdjacentHeadings (current # next # rest) =
     (if type current = Heading \<and> type next = Paragraph \<and>
         looksLikeContinuation (firstLine next) \<and> \<not> endsWithPunctuation (trim (content current))
      then createSection Heading (content current @ '' '' @ firstLine next) (level current) []
             # (if remainingLines next \<noteq> []
                then [createSection Paragraph (remainingLines next) 0 []] else [])
             @ mergeAdjacentHeadings rest
      else if type current = Heading \<and> type next = Heading \<and> level current = level next
      then createSection Heading (content current @ '' '' @ content next) (level current) []
             # mergeAdjacentHeadings rest
      else current # mergeAdjacentHeadings (next # rest))"

section \<open>The parser and the document loop\<close>

text \<open>
  \<open>parseHTMLIntoBlocks\<close> on the child nodes of the root \<open>tempDiv\<close>: the walk, then the three
  passes in their order.
\<close>

definition segment :: "node list \<Rightarrow> Section list" where
  "segment nodes = snd (walkChildren [] 0 nodes ({}, []))"

definition parseHTMLIntoBlocks :: "node list \<Rightarrow> Section list" where
  "parseHTMLIntoBlocks nodes =
     (let sections = segment nodes;
          mergedSections = mergeHyphenatedWords sections;
          mergedSections = mergeAdjacentParagraphs mergedSections
      in mergeAdjacentHeadings mergedSections)"

text \<open>
  \<open>extractSectionsFromDocument\<close>: a document is the list of its pages' markup trees; the
  loop parses page by page and pushes each page's sections onto \<open>sections\<close>.
\<close>

fun extractLoop :: "node list list \<Rightarrow> Section list \<Rightarrow> Section list" where
  "extractLoop [] sections = sections"
| "extractLoop (page # pages) sections = extractLoop pages (sections @ parseHTMLIntoBlocks page)"

definition extractSectionsFromDocument :: "node list list \<Rightarrow> Section list" where
  "extractSectionsFromDocument doc = extractLoop doc []"

section \<open>Renderer\<close>

text \<open>
  \<open>escapeHtml\<close> sets the text as an element's \<open>textContent\<close> and reads its \<open>innerHTML\<close>: the
  serialisation of a text node replaces \<open>&\<close>, \<open><\<close>, \<open>>\<close> and the no-break space by their
  entities.
\<close>

definition escapeChar :: "char \<Rightarrow> string" where
  "escapeChar c =
     (if c = CHR ''&'' then ''&amp;''
      else if c = CHR ''<'' then ''&lt;''
      else if c = CHR ''>'' then ''&gt;''
      else if code c = 160 then ''&nbsp;''
      else [c])"

definition escapeHtml :: "string \<Rightarrow> string" where
  "escapeHtml text = concat (map escapeChar text)"

text \<open>The decimal form of an integer, as a template literal prints a number.\<close>

fun showNat :: "nat \<Rightarrow> string" where
  "showNat n = (if n < 10 then [char_of (48 + n)] else showNat (n div 10) @ [char_of (48 + n mod 10)])"

definition showInt :: "int \<Rightarrow> string" where
  "showInt i = (if i < 0 then CHR ''-'' # showNat (nat (- i)) else showNat (nat i))"

definition renderImages :: "image list \<Rightarrow> string" where
  "renderImages ims =
     concat (map (\<lambda>im. if src im \<noteq> [] then ''<img src='' @ [CHR 0x22] @ src im @ [CHR 0x22] @ '' alt='' @ [CHR 0x22, CHR 0x22] @ '' />'' else []) ims)"

definition renderSection :: "Section \<Rightarrow> string" where
  "renderSection s =
     (if content s = [] \<and> length (images s) = 0 then []
      else if type s = Heading then
        (let tag = CHR ''h'' # showInt (min (if level s \<noteq> 0 then level s else 2) 6)
         in ''<'' @ tag @ ''>'' @ escapeHtml (content s) @ ''</'' @ tag @ ''>'')
      else if type s = Image then renderImages (images s)
      else if trim (content s) \<noteq> [] then
        ''<p>'' @ escapeHtml (content s) @ ''</p>'' @ renderImages (images s)
      else [])"

definition renderSections :: "Section list \<Rightarrow> string" where
  "renderSections sections = concat (map renderSection sections)"

section \<open>Properties\<close>

text \<open>The claim's reading of the level: clamped into the range 1 to 6.\<close>

definition specClampedLevel :: "int \<Rightarrow> int" where
  "specClampedLevel l = max 1 (min 6 l)"

text \<open>
  The claim's condition, in its words: the second text begins with a lower-case letter
  (a letter of the Latin-1 range that is lower case).
\<close>

definition specLowercaseLetter :: "char \<Rightarrow> bool" where
  "specLowercaseLetter c =
     (isLowerAZ c \<or> code c = 181 \<or> (223 \<le> code c \<and> code c \<le> 255 \<and> code c \<noteq> 247))"

definition specBeginsLowercase :: "string \<Rightarrow> bool" where
  "specBeginsLowercase t = (case t of [] \<Rightarrow> False | c # _ \<Rightarrow> specLowercaseLetter c)"

definition specShouldMerge :: "string \<Rightarrow> string \<Rightarrow> bool" where
  "specShouldMerge first second =
     ((\<not> endsWithPunctuation first \<and> specBeginsLowercase second) \<or>
      endsWith first CHR ''-'' \<or>
      (length first < 100 \<and> \<not> endsWithPunctuation first \<and> specBeginsLowercase second))"

text \<open>
  What Pass 1 can still repair: a content with a match of the hyphenation pattern at some
  position, and two adjacent paragraphs that the hyphen merge joins (the first ends with
  a hyphen after trimming, the second has text that passes the code's lower-case test).
  A sequence is stable when it has neither.
\<close>

fun hasHyphenMatch :: "string \<Rightarrow> bool" where
  "hasHyphenMatch [] = False"
| "hasHyphenMatch (c # cs) = (hyphenMatchAt (c # cs) \<noteq> None \<or> hasHyphenMatch cs)"

definition hyphenPair :: "Section \<Rightarrow> Section \<Rightarrow> bool" where
  "hyphenPair current next =
     (type current = Paragraph \<and> type next = Paragraph \<and>
      endsWith (trim (content current)) CHR ''-'' \<and>
      0 < length (trim (content next)) \<and> startsLowercase (trim (content next)))"

fun hasHyphenPair :: "Section list \<Rightarrow> bool" where
  "hasHyphenPair [] = False"
| "hasHyphenPair [c] = False"
| "hasHyphenPair (c # next # rest) = (hyphenPair c next \<or> hasHyphenPair (next # rest))"

definition pass1Stable :: "Section list \<Rightarrow> bool" where
  "pass1Stable ss = (list_all (\<lambda>s. \<not> hasHyphenMatch (content s)) ss \<and> \<not> hasHyphenPair ss)"

text \<open>
  A string in which every \<open><\<close> opens one of the renderer's own tags: it is followed by
  \<open>h\<close>, \<open>p\<close>, \<open>/\<close> or \<open>i\<close>.
\<close>

fun tagsOnly :: "string \<Rightarrow> bool" where
  "tagsOnly [] = True"
| "tagsOnly [c] = (c \<noteq> CHR ''<'')"
| "tagsOnly (c # d # cs) =
     ((c = CHR ''<'' \<longrightarrow> d \<in> {CHR ''h'', CHR ''p'', CHR ''/'', CHR ''i''}) \<and> tagsOnly (d # cs))"

text \<open>A piece of output that is \<open>tagsOnly\<close> and does not end in an open \<open><\<close>.\<close>

definition closedPiece :: "string \<Rightarrow> bool" where
  "closedPiece x = (tagsOnly x \<and> (x = [] \<or> last x \<noteq> CHR ''<''))"

text \<open>
  The invariant of the sections of the pipeline: a heading has a level from 1 to 6, and a
  section that is no image has text left after trimming.
\<close>

definition wellFormed :: "Section \<Rightarrow> bool" where
  "wellFormed s =
     ((type s = Heading \<longrightarrow> 1 \<le> level s \<and> level s \<le> 6) \<and>
      (type s \<noteq> Image \<longrightarrow> trim (content s) \<noteq> []))"

text \<open>
  What the visit of an element emits when nothing stops it (\<open>None\<close> when the element is
  not consumed), and the sections of a subtree by recursion on the tree, where \<open>blocked\<close>
  says that an ancestor below the root is consumed. The walk over paths computes the same
  sections (\<open>segment_segs\<close>).
\<close>

definition emitted :: "node \<Rightarrow> Section list option" where
  "emitted el =
     (let tg = tagName el
      in if tg = ''img'' then map_option (\<lambda>s. [s]) (fst (processImage [] el {}))
         else if headingTagLevel tg \<noteq> None then map_option (\<lambda>s. [s]) (fst (processHeading [] el {}))
         else if tg = ''p'' \<or> tg = ''div'' \<or> tg = ''span'' then fst (processTextElement [] el tg {})
         else None)"

fun seg :: "bool \<Rightarrow> node \<Rightarrow> Section list"
  and segs :: "bool \<Rightarrow> node list \<Rightarrow> Section list" where
  "seg blocked (TextNode t) = []"
| "seg blocked (Element tg as cs) =
     (if isPageMarker (Element tg as cs) then segs blocked cs
      else if blocked then segs True cs
      else (case emitted (Element tg as cs) of
              None \<Rightarrow> segs False cs
            | Some ss \<Rightarrow> ss @ segs True cs))"
| "segs blocked [] = []"
| "segs blocked (n # ns) = seg blocked n @ segs blocked ns"

text \<open>The path \<open>q\<close> is \<open>p\<close> or lies below it.\<close>

definition below :: "path \<Rightarrow> path \<Rightarrow> bool" where
  "below p q = (\<exists>r. q = r @ p)"

text \<open>
  What a walk from the state \<open>st\<close> to the state \<open>st'\<close> does: it appends the sections \<open>out\<close> and
  adds only paths at or below \<open>p\<close> (for the child nodes: below a child of \<open>p\<close> from the index
  \<open>i\<close> on). The child nodes of \<open>p\<close> are blocked when \<open>p\<close> or an ancestor of it is processed.
\<close>

definition walkSpec :: "path \<Rightarrow> walkState \<Rightarrow> walkState \<Rightarrow> Section list \<Rightarrow> bool" where
  "walkSpec p st st' out =
     (snd st' = snd st @ out \<and> fst st \<subseteq> fst st' \<and> (\<forall>q \<in> fst st'. q \<in> fst st \<or> below p q))"

definition childrenSpec :: "path \<Rightarrow> nat \<Rightarrow> walkState \<Rightarrow> walkState \<Rightarrow> Section list \<Rightarrow> bool" where
  "childrenSpec p i st st' out =
     (snd st' = snd st @ out \<and> fst st \<subseteq> fst st' \<and>
      (\<forall>q \<in> fst st'. q \<in> fst st \<or> (\<exists>j\<ge>i. below (j # p) q)))"

definition childrenBlocked :: "path \<Rightarrow> path set \<Rightarrow> bool" where
  "childrenBlocked p S = (p \<noteq> [] \<and> (p \<in> S \<or> isParentProcessed p S))"

section \<open>Heading levels\<close>

text \<open>
  C5. Heading level assignment. A text block of 22pt, of 19pt, or of 15pt in bold is
  classified as a heading, and \<open>getHeadingLevel\<close> gives it level 1, 2 and 3. In general
  the thresholds are read in their order: a font size above 20 gives level 1; otherwise a
  font size above 18, or above 16, gives level 2; otherwise a font size above 14 gives
  level 3, bold with a font size above 12 gives level 3, and every other case gives the
  fallback level 3.
\<close>

theorem getHeadingLevel_cases:
  "getHeadingLevel (Num 22) bold = 1 \<and> getHeadingLevel (Num 19) bold = 2 \<and>
   getHeadingLevel (Num 15) True = 3 \<and>
   isLikelyHeading text (Num 22) bold \<and> isLikelyHeading text (Num 19) bold \<and>
   isLikelyHeading text (Num 15) True \<and>
   (gt fs 20 \<longrightarrow> getHeadingLevel fs bold = 1) \<and>
   (\<not> gt fs 20 \<and> (gt fs 18 \<or> gt fs 16) \<longrightarrow> getHeadingLevel fs bold = 2) \<and>
   (\<not> gt fs 20 \<and> \<not> gt fs 18 \<and> \<not> gt fs 16 \<and> gt fs 14 \<longrightarrow> getHeadingLevel fs bold = 3) \<and>
   (\<not> gt fs 14 \<and> bold \<and> gt fs 12 \<longrightarrow> getHeadingLevel fs bold = 3) \<and>
   (\<not> gt fs 14 \<and> \<not> (bold \<and> gt fs 12) \<longrightarrow> getHeadingLevel fs bold = 3)"
  by (cases fs) (auto simp: getHeadingLevel_def isLikelyHeading_def)

theorem getHeadingLevel_cases_witness:
  "getHeadingLevel (Num 21) False = 1 \<and> getHeadingLevel (Num 17) False = 2 \<and>
   getHeadingLevel (Num (29 / 2)) False = 3 \<and> getHeadingLevel (Num 13) True = 3 \<and>
   getHeadingLevel (Num 11) True = 3 \<and> getHeadingLevel NaN True = 3"
  using getHeadingLevel_cases [of False "[]" "Num 21"]
    getHeadingLevel_cases [of False "[]" "Num 17"]
    getHeadingLevel_cases [of False "[]" "Num (29 / 2)"]
    getHeadingLevel_cases [of True "[]" "Num 13"]
    getHeadingLevel_cases [of True "[]" "Num 11"]
    getHeadingLevel_cases [of True "[]" NaN]
  by simp

section \<open>Section counts of the merge passes\<close>

declare mergeAdjacentParagraphs.simps [simp del]

lemma mergeAdjacentParagraphs_length: "length (mergeAdjacentParagraphs ss) \<le> length ss"
proof (induction ss rule: mergeAdjacentParagraphs.induct)
  case (1 merged)
  obtain newMerged changed where sc: "scanParagraphs merged = (newMerged, changed)"
    by (cases "scanParagraphs merged")
  have le: "length newMerged \<le> length merged"
    using scanParagraphs_length [of merged] sc by simp
  show ?case
  proof (cases changed)
    case True
    then have "length (mergeAdjacentParagraphs newMerged) \<le> length newMerged"
      using "1.IH" sc by simp
    then show ?thesis
      using le sc True by (simp add: mergeAdjacentParagraphs.simps [of merged])
  next
    case False
    then show ?thesis
      using le sc by (simp add: mergeAdjacentParagraphs.simps [of merged])
  qed
qed

lemma mergeAdjacentHeadings_length: "length (mergeAdjacentHeadings ss) \<le> length ss"
  by (induction ss rule: induct_list012) auto

text \<open>
  C6. Merge monotonicity. For every section sequence, the sequence Pass 2
  (\<open>mergeAdjacentParagraphs\<close>) returns and the sequence Pass 3 (\<open>mergeAdjacentHeadings\<close>)
  returns are at most as long as the input: no merge pass increases the section count.
\<close>

theorem merge_monotonicity:
  "length (mergeAdjacentParagraphs ss) \<le> length ss \<and>
   length (mergeAdjacentHeadings ss) \<le> length ss"
  using mergeAdjacentParagraphs_length [of ss] mergeAdjacentHeadings_length [of ss] by simp

section \<open>Rendering of headings\<close>

text \<open>
  C4, as stated, fails: a heading of level 0 is rendered as \<open>h2\<close>, not as \<open>h1\<close>
  (\<open>section.level || 2\<close> falls back to 2).
\<close>

theorem renderSection_level_zero:
  "renderSection (createSection Heading ''T'' 0 []) = ''<h2>T</h2>'' \<and>
   renderSection (createSection Heading ''T'' 0 []) \<noteq>
     ''<h'' @ showInt (specClampedLevel 0) @ ''>'' @ escapeHtml ''T'' @ ''</h'' @ showInt (specClampedLevel 0) @ ''>''"
  by code_simp

text \<open>
  C4, amended. Heading render level: for every heading section that has content or
  images, \<open>renderSection\<close> emits a heading tag around the HTML-escaped content whose
  numeric level is 2 when the section's level is 0, and otherwise the smaller of the
  section's level and 6. So a level above 6 is clamped down to 6 and a level from 1 to 6
  is kept (for every level from 1 on this is the level clamped into the range 1 to 6);
  a level below 1 is not clamped up to 1.
\<close>

theorem renderSection_heading_level:
  assumes "type s = Heading" and "content s \<noteq> [] \<or> images s \<noteq> []"
  shows "renderSection s =
           ''<h'' @ showInt (if level s = 0 then 2 else min (level s) 6) @ ''>'' @ escapeHtml (content s) @
           ''</h'' @ showInt (if level s = 0 then 2 else min (level s) 6) @ ''>'' \<and>
         (1 \<le> level s \<longrightarrow> (if level s = 0 then 2 else min (level s) 6) = specClampedLevel (level s))"
  using assms by (auto simp: renderSection_def Let_def specClampedLevel_def)

theorem renderSection_heading_level_witness:
  "renderSection (createSection Heading ''T'' 9 []) = ''<h6>T</h6>'' \<and> specClampedLevel 9 = 6"
proof -
  have e: "type (createSection Heading ''T'' 9 []) = Heading"
    "content (createSection Heading ''T'' 9 []) = ''T''"
    "level (createSection Heading ''T'' 9 []) = 9"
    "showInt 6 = ''6''" "escapeHtml ''T'' = ''T''"
    by code_simp+
  show ?thesis
    using renderSection_heading_level [of "createSection Heading ''T'' 9 []"] e
    by (simp add: specClampedLevel_def)
qed

section \<open>Sanitization\<close>

declare showNat.simps [simp del]

lemma showNat_digits: "c \<in> set (showNat n) \<Longrightarrow> isDigit c"
proof (induction n rule: showNat.induct)
  case (1 n)
  show ?case
  proof (cases "n < 10")
    case True
    then show ?thesis
      using "1.prems" by (auto simp: showNat.simps [of n] isDigit_def code_def)
  next
    case False
    have "n mod 10 < 10" by simp
    then have "isDigit (char_of (48 + n mod 10))"
      by (simp add: isDigit_def code_def)
    then show ?thesis
      using "1.prems" "1.IH" False by (auto simp: showNat.simps [of n])
  qed
qed

lemma showInt_no_angle: "CHR ''<'' \<notin> set (showInt i) \<and> CHR ''>'' \<notin> set (showInt i)"
  by (auto simp: showInt_def isDigit_def code_def dest!: showNat_digits)

lemma escapeChar_no_angle: "CHR ''<'' \<notin> set (escapeChar c) \<and> CHR ''>'' \<notin> set (escapeChar c)"
  by (simp add: escapeChar_def)

lemma escapeHtml_no_angle: "CHR ''<'' \<notin> set (escapeHtml t) \<and> CHR ''>'' \<notin> set (escapeHtml t)"
  using escapeChar_no_angle by (auto simp: escapeHtml_def)

lemma tagsOnly_plain: "CHR ''<'' \<notin> set xs \<Longrightarrow> tagsOnly xs"
  by (induction xs rule: tagsOnly.induct) auto

lemma tagsOnly_plain_append: "CHR ''<'' \<notin> set xs \<Longrightarrow> tagsOnly ys \<Longrightarrow> tagsOnly (xs @ ys)"
proof (induction xs rule: tagsOnly.induct)
  case (2 c)
  then show ?case by (cases ys) auto
qed auto

lemma tagsOnly_append:
  "tagsOnly xs \<Longrightarrow> tagsOnly ys \<Longrightarrow> xs = [] \<or> last xs \<noteq> CHR ''<'' \<Longrightarrow> tagsOnly (xs @ ys)"
proof (induction xs rule: tagsOnly.induct)
  case (2 c)
  then show ?case by (cases ys) auto
qed auto

lemma tagsOnly_suffix: "tagsOnly (xs @ ys) \<Longrightarrow> tagsOnly ys"
proof (induction xs rule: tagsOnly.induct)
  case (2 c)
  then show ?case by (cases ys) auto
qed auto

lemma closedPiece_append: "closedPiece xs \<Longrightarrow> closedPiece ys \<Longrightarrow> closedPiece (xs @ ys)"
  by (cases "ys = []") (auto simp: closedPiece_def tagsOnly_append)

lemma closedPiece_concat: "(\<And>x. x \<in> set xs \<Longrightarrow> closedPiece x) \<Longrightarrow> closedPiece (concat xs)"
proof (induction xs)
  case Nil
  show ?case by (simp add: closedPiece_def)
next
  case (Cons x xs)
  then show ?case by (simp add: closedPiece_append)
qed

lemma closedPiece_plain: "CHR ''<'' \<notin> set xs \<Longrightarrow> closedPiece xs"
  by (cases xs rule: rev_cases) (auto simp: closedPiece_def tagsOnly_plain)

lemma closedPiece_open:
  assumes "closedPiece (d # r)" and "d \<in> {CHR ''h'', CHR ''p'', CHR ''/'', CHR ''i''}"
  shows "closedPiece (CHR ''<'' # d # r)"
  using assms by (auto simp: closedPiece_def)

lemma closedPiece_image:
  assumes "CHR ''<'' \<notin> set u"
  shows "closedPiece (''<img src='' @ [CHR 0x22] @ u @ [CHR 0x22] @ '' alt='' @ [CHR 0x22, CHR 0x22] @ '' />'')"
proof -
  have "closedPiece (CHR ''i'' # ''mg src='' @ [CHR 0x22] @ u @ [CHR 0x22] @ '' alt='' @ [CHR 0x22, CHR 0x22] @ '' />'')"
    using assms by (intro closedPiece_plain) simp
  then have "closedPiece (CHR ''<'' # CHR ''i'' # ''mg src='' @ [CHR 0x22] @ u @ [CHR 0x22] @ '' alt='' @ [CHR 0x22, CHR 0x22] @ '' />'')"
    by (rule closedPiece_open) simp
  then show ?thesis by simp
qed

lemma closedPiece_renderImages:
  "(\<And>im. im \<in> set ims \<Longrightarrow> CHR ''<'' \<notin> set (src im)) \<Longrightarrow> closedPiece (renderImages ims)"
  unfolding renderImages_def
proof (rule closedPiece_concat)
  fix x
  assume a: "\<And>im. im \<in> set ims \<Longrightarrow> CHR ''<'' \<notin> set (src im)"
    and "x \<in> set (map (\<lambda>im. if src im \<noteq> []
            then ''<img src='' @ [CHR 0x22] @ src im @ [CHR 0x22] @ '' alt='' @ [CHR 0x22, CHR 0x22] @ '' />''
            else []) ims)"
  then obtain im where im: "im \<in> set ims"
    and x: "x = (if src im \<noteq> []
            then ''<img src='' @ [CHR 0x22] @ src im @ [CHR 0x22] @ '' alt='' @ [CHR 0x22, CHR 0x22] @ '' />''
            else [])"
    by auto
  show "closedPiece x"
  proof (cases "src im \<noteq> []")
    case True
    then show ?thesis using closedPiece_image [OF a [OF im]] x by simp
  next
    case False
    then show ?thesis using x by (simp add: closedPiece_def)
  qed
qed

lemma closedPiece_element:
  assumes "CHR ''<'' \<notin> set tl1" and "h \<in> {CHR ''h'', CHR ''p''}"
    and "CHR ''<'' \<notin> set body"
  shows "closedPiece (''<'' @ (h # tl1) @ ''>'' @ body @ ''</'' @ (h # tl1) @ ''>'')"
proof -
  have "closedPiece (CHR ''/'' # (h # tl1) @ ''>'')"
    using assms by (intro closedPiece_plain) auto
  then have c2: "closedPiece (CHR ''<'' # CHR ''/'' # (h # tl1) @ ''>'')"
    by (rule closedPiece_open) simp
  have "closedPiece (h # tl1 @ ''>'' @ body)"
    using assms by (intro closedPiece_plain) auto
  then have "closedPiece (CHR ''<'' # h # tl1 @ ''>'' @ body)"
    by (rule closedPiece_open) (use assms(2) in auto)
  then have "closedPiece ((CHR ''<'' # h # tl1 @ ''>'' @ body) @ (CHR ''<'' # CHR ''/'' # (h # tl1) @ ''>''))"
    using c2 by (rule closedPiece_append)
  then show ?thesis by simp
qed

lemma closedPiece_renderSection:
  assumes "\<And>im. im \<in> set (images s) \<Longrightarrow> CHR ''<'' \<notin> set (src im)"
  shows "closedPiece (renderSection s)"
proof -
  have im: "closedPiece (renderImages (images s))"
    using assms by (rule closedPiece_renderImages)
  have hd: "closedPiece (''<'' @ (CHR ''h'' # showInt k) @ ''>'' @ escapeHtml (content s) @
                          ''</'' @ (CHR ''h'' # showInt k) @ ''>'')" for k
    by (rule closedPiece_element) (use showInt_no_angle escapeHtml_no_angle in auto)
  have pa: "closedPiece (''<'' @ ''p'' @ ''>'' @ escapeHtml (content s) @ ''</'' @ ''p'' @ ''>'')"
    using closedPiece_element [of "[]" "CHR ''p''" "escapeHtml (content s)"] escapeHtml_no_angle
    by auto
  have pa': "closedPiece ((''<'' @ ''p'' @ ''>'' @ escapeHtml (content s) @ ''</'' @ ''p'' @ ''>'') @
                           renderImages (images s))"
    using pa im by (rule closedPiece_append)
  show ?thesis
    using im hd pa' by (auto simp: renderSection_def Let_def closedPiece_def)
qed

lemma tagsOnly_renderSections:
  assumes "\<And>s im. s \<in> set ss \<Longrightarrow> im \<in> set (images s) \<Longrightarrow> CHR ''<'' \<notin> set (src im)"
  shows "tagsOnly (renderSections ss)"
proof -
  have "closedPiece (concat (map renderSection ss))"
    by (rule closedPiece_concat) (use assms closedPiece_renderSection in auto)
  then show ?thesis by (simp add: renderSections_def closedPiece_def)
qed

text \<open>
  C8. Sanitization. The content of a section is escaped before it is inserted: the escaped
  text has no \<open><\<close> and no \<open>>\<close>, and a section renders as nothing, as its image
  references, or as a heading or paragraph tag around the escaped content. So in the
  rendering of a section sequence (whose image sources, which are no text content, have no
  \<open><\<close> of their own) every \<open><\<close> opens a tag of the renderer, and no raw \<open><script\<close>
  occurs anywhere.
\<close>

theorem renderSections_sanitized:
  "CHR ''<'' \<notin> set (escapeHtml (content s)) \<and> CHR ''>'' \<notin> set (escapeHtml (content s)) \<and>
   renderSection s \<in>
     {[], renderImages (images s),
      ''<h'' @ showInt (min (if level s \<noteq> 0 then level s else 2) 6) @ ''>'' @ escapeHtml (content s) @
        ''</h'' @ showInt (min (if level s \<noteq> 0 then level s else 2) 6) @ ''>'',
      ''<p>'' @ escapeHtml (content s) @ ''</p>'' @ renderImages (images s)} \<and>
   ((\<forall>s \<in> set ss. \<forall>im \<in> set (images s). CHR ''<'' \<notin> set (src im)) \<longrightarrow>
      tagsOnly (renderSections ss) \<and> renderSections ss \<noteq> xs @ ''<script'' @ ys)"
proof -
  have a: "CHR ''<'' \<notin> set (escapeHtml (content s)) \<and> CHR ''>'' \<notin> set (escapeHtml (content s))"
    by (rule escapeHtml_no_angle)
  have b: "renderSection s \<in>
     {[], renderImages (images s),
      ''<h'' @ showInt (min (if level s \<noteq> 0 then level s else 2) 6) @ ''>'' @ escapeHtml (content s) @
        ''</h'' @ showInt (min (if level s \<noteq> 0 then level s else 2) 6) @ ''>'',
      ''<p>'' @ escapeHtml (content s) @ ''</p>'' @ renderImages (images s)}"
    by (simp add: renderSection_def Let_def)
  have c: "tagsOnly (renderSections ss) \<and> renderSections ss \<noteq> xs @ ''<script'' @ ys"
    if h: "\<forall>s \<in> set ss. \<forall>im \<in> set (images s). CHR ''<'' \<notin> set (src im)"
  proof -
    have t: "tagsOnly (renderSections ss)"
      by (rule tagsOnly_renderSections) (use h in auto)
    have "\<not> tagsOnly (xs @ ''<script'' @ ys)"
      using tagsOnly_suffix [of xs "''<script'' @ ys"] by auto
    with t show ?thesis by auto
  qed
  show ?thesis using a b c by blast
qed

theorem renderSections_sanitized_witness:
  "renderSections [createSection Paragraph ''<script>x</script>'' 0 [\<lparr> src = ''a.png'' \<rparr>]] =
     ''<p>&lt;script&gt;x&lt;/script&gt;</p><img src='' @ [CHR 0x22] @ ''a.png'' @ [CHR 0x22] @ '' alt='' @ [CHR 0x22, CHR 0x22] @ '' />'' \<and>
   tagsOnly (renderSections [createSection Paragraph ''<script>x</script>'' 0 [\<lparr> src = ''a.png'' \<rparr>]]) \<and>
   renderSections [createSection Paragraph ''<script>x</script>'' 0 [\<lparr> src = ''a.png'' \<rparr>]] \<noteq>
     ''<p>'' @ ''<script'' @ ''>x</script></p>''"
proof -
  have e: "images (createSection Paragraph ''<script>x</script>'' 0 [\<lparr> src = ''a.png'' \<rparr>]) = [\<lparr> src = ''a.png'' \<rparr>]"
    "renderSections [createSection Paragraph ''<script>x</script>'' 0 [\<lparr> src = ''a.png'' \<rparr>]] =
     ''<p>&lt;script&gt;x&lt;/script&gt;</p><img src='' @ [CHR 0x22] @ ''a.png'' @ [CHR 0x22] @ '' alt='' @ [CHR 0x22, CHR 0x22] @ '' />''"
    by code_simp+
  have h: "\<forall>s \<in> set [createSection Paragraph ''<script>x</script>'' 0 [\<lparr> src = ''a.png'' \<rparr>]].
             \<forall>im \<in> set (images s). CHR ''<'' \<notin> set (src im)"
    by (simp add: e)
  show ?thesis
    using renderSections_sanitized
      [of "createSection Paragraph ''<script>x</script>'' 0 [\<lparr> src = ''a.png'' \<rparr>]"
          "[createSection Paragraph ''<script>x</script>'' 0 [\<lparr> src = ''a.png'' \<rparr>]]"
          "''<p>''" "''>x</script></p>''"] h e(2)
    by blast
qed

section \<open>The merge condition of Pass 2\<close>

lemma specBeginsLowercase_startsLowercase: "specBeginsLowercase t \<Longrightarrow> startsLowercase t"
  by (cases t)
     (auto simp: specBeginsLowercase_def startsLowercase_def specLowercaseLetter_def toLowerCase_def
        isLowerAZ_def isUpperAZ_def)

lemma mergeAdjacentParagraphs_single: "mergeAdjacentParagraphs [x] = [x]"
  by (simp add: mergeAdjacentParagraphs.simps [of "[x]"])

lemma mergeAdjacentParagraphs_pair:
  "mergeAdjacentParagraphs [a, b] =
     (if mergesPair a b then [createSection Paragraph (content a @ '' '' @ content b) 0 []] else [a, b])"
  by (simp add: mergeAdjacentParagraphs.simps [of "[a, b]"] mergeAdjacentParagraphs_single
        scanParagraphs_pair del: scanParagraphs.simps(3))

text \<open>
  Where the claim's condition holds for two paragraphs, the second with text, the code
  merges them; the converse is what fails.
\<close>

lemma spec_condition_merges:
  assumes "type a = Paragraph" and "type b = Paragraph" and "trim (content b) \<noteq> []"
    and "specShouldMerge (trim (content a)) (trim (content b))"
  shows "mergeAdjacentParagraphs [a, b] =
           [createSection Paragraph (content a @ '' '' @ content b) 0 []]"
proof -
  have "shouldMerge (trim (content a)) (trim (content b))"
    using assms(4) specBeginsLowercase_startsLowercase [of "trim (content b)"]
    by (auto simp: specShouldMerge_def shouldMerge_def)
  then have "mergesPair a b"
    using assms by (simp add: mergesPair_def)
  then show ?thesis by (simp add: mergeAdjacentParagraphs_pair)
qed

text \<open>
  C3. Pass 2 merge condition. The claim: two adjacent paragraphs, the second with text
  after trimming, are merged (joined by a single space) if and only if the first does not
  end in \<open>.\<close>, \<open>!\<close> or \<open>?\<close> and the second begins with a lower-case letter, or the first
  ends with a hyphen, or the first is shorter than 100 characters, does not end in
  punctuation, and the second begins with a lower-case letter. The code merges more pairs
  than these: its test for a lower-case start is \<open>c.toLowerCase() === c\<close>, which every
  digit and every punctuation mark passes. The paragraphs \<open>Total\<close> and \<open>42 items.\<close>
  are merged by the code, and the claim's condition does not hold for them.
\<close>

theorem mergeAdjacentParagraphs_digit_start:
  "mergeAdjacentParagraphs
     [createSection Paragraph ''Total'' 0 [], createSection Paragraph ''42 items.'' 0 []] =
     [createSection Paragraph ''Total 42 items.'' 0 []] \<and>
   \<not> specShouldMerge (trim ''Total'') (trim ''42 items.'')"
  by code_simp

section \<open>Repeating Pass 1\<close>

text \<open>
  C2, as stated, fails: after a match the scan goes on behind the letter that follows the
  hyphen, so of two hyphens in one word the first application repairs the first
  (\<open>ab-cd-ef\<close> becomes \<open>abcd-ef\<close>) and the second application the second (\<open>abcdef\<close>).
\<close>

theorem pass1_twice_differs:
  "mergeHyphenatedWords (mergeHyphenatedWords [createSection Paragraph ''ab-cd-ef'' 0 []]) \<noteq>
   mergeHyphenatedWords [createSection Paragraph ''ab-cd-ef'' 0 []]"
  by code_simp

lemma hyphenMatchAt_length:
  assumes "hyphenMatchAt s = Some (w, l, rest)"
  shows "length w + length rest + 2 \<le> length s"
proof -
  obtain r' where w: "w = takeWhile isWord s"
    and r: "dropWhile isWord s = CHR ''-'' # r'" and d: "dropWhile isSpace r' = l # rest"
    using assms
    by (auto simp: hyphenMatchAt_def Let_def split: if_splits list.splits)
  have "length (l # rest) \<le> length r'"
    using length_dropWhile_le [of isSpace r'] d by simp
  moreover have "length s = length w + length (CHR ''-'' # r')"
    using takeWhile_dropWhile_id [of isWord s] w r by (metis length_append)
  ultimately show ?thesis by simp
qed

lemma fixHyphenatedWords_length:
  "length (fixHyphenatedWords s) \<le> length s \<and>
   (hasHyphenMatch s \<longrightarrow> length (fixHyphenatedWords s) < length s)"
proof (induction s rule: fixHyphenatedWords.induct)
  case 1
  show ?case by simp
next
  case (2 c cs)
  show ?case
  proof (cases "hyphenMatchAt (c # cs)")
    case None
    then show ?thesis using "2.IH"(1) by auto
  next
    case (Some m)
    obtain w l rest where m: "m = (w, l, rest)" by (cases m)
    have "length w + length rest + 2 \<le> length (c # cs)"
      using Some m hyphenMatchAt_length by blast
    moreover have "length (fixHyphenatedWords rest) \<le> length rest"
      using "2.IH"(2) Some m by simp
    ultimately show ?thesis using Some m by simp
  qed
qed

lemma fixHyphenatedWords_stable: "\<not> hasHyphenMatch s \<Longrightarrow> fixHyphenatedWords s = s"
proof (induction s)
  case Nil
  show ?case by simp
next
  case (Cons c cs)
  have "hyphenMatchAt (c # cs) = None"
    using Cons.prems by (cases "hyphenMatchAt (c # cs)") simp_all
  moreover have "fixHyphenatedWords cs = cs"
    using Cons by simp
  ultimately show ?case by simp
qed

lemma fixHyphenatedWords_fixed_iff: "fixHyphenatedWords s = s \<longleftrightarrow> \<not> hasHyphenMatch s"
  using fixHyphenatedWords_length [of s] fixHyphenatedWords_stable [of s] by auto

lemma content_update_fixed: "(s\<lparr>content := x\<rparr> = s) = (x = content s)"
proof
  assume "s\<lparr>content := x\<rparr> = s"
  then have "content (s\<lparr>content := x\<rparr>) = content s" by simp
  then show "x = content s" by simp
next
  assume "x = content s"
  then show "s\<lparr>content := x\<rparr> = s" by simp
qed

lemma fixContent_fixed_iff: "fixContent s = s \<longleftrightarrow> \<not> hasHyphenMatch (content s)"
  by (cases "content s = []")
     (simp_all add: fixContent_def content_update_fixed fixHyphenatedWords_fixed_iff)

lemma mergeHyphenatedWords_length: "length (mergeHyphenatedWords ss) \<le> length ss"
  by (induction ss rule: mergeHyphenatedWords.induct) auto

lemma mergeHyphenatedWords_pair:
  "mergeHyphenatedWords (c # n # rest) =
     (if hyphenPair (fixContent c) n
      then createSection Paragraph
             (fixHyphenatedWords (butlast (trim (content (fixContent c))) @ trim (content n))) 0 []
             # mergeHyphenatedWords rest
      else fixContent c # mergeHyphenatedWords (n # rest))"
  by (simp add: hyphenPair_def)

lemma mergeHyphenatedWords_stable: "pass1Stable ss \<Longrightarrow> mergeHyphenatedWords ss = ss"
proof (induction ss rule: induct_list012)
  case 1
  show ?case by simp
next
  case (2 x)
  then show ?case by (simp add: pass1Stable_def fixContent_fixed_iff)
next
  case (3 x y zs)
  have fx: "fixContent x = x"
    using "3.prems" by (simp add: pass1Stable_def fixContent_fixed_iff)
  have np: "\<not> hyphenPair x y" using "3.prems" by (simp add: pass1Stable_def)
  have "pass1Stable (y # zs)" using "3.prems" by (simp add: pass1Stable_def)
  then have "mergeHyphenatedWords (y # zs) = y # zs" by (rule "3.IH"(2))
  then show ?case
    using fx np by (simp add: mergeHyphenatedWords_pair del: mergeHyphenatedWords.simps(3))
qed

lemma mergeHyphenatedWords_fixed: "mergeHyphenatedWords ss = ss \<Longrightarrow> pass1Stable ss"
proof (induction ss rule: induct_list012)
  case 1
  show ?case by (simp add: pass1Stable_def)
next
  case (2 x)
  then show ?case by (simp add: pass1Stable_def fixContent_fixed_iff)
next
  case (3 x y zs)
  have nm: "\<not> hyphenPair (fixContent x) y"
  proof
    assume "hyphenPair (fixContent x) y"
    then have "length (mergeHyphenatedWords (x # y # zs)) = Suc (length (mergeHyphenatedWords zs))"
      by (simp add: mergeHyphenatedWords_pair del: mergeHyphenatedWords.simps(3))
    then show False
      using "3.prems" mergeHyphenatedWords_length [of zs] by simp
  qed
  then have eq: "fixContent x = x" "mergeHyphenatedWords (y # zs) = y # zs"
    using "3.prems" by (simp_all add: mergeHyphenatedWords_pair del: mergeHyphenatedWords.simps(3))
  have "pass1Stable (y # zs)" using eq(2) by (rule "3.IH"(2))
  moreover have "\<not> hasHyphenMatch (content x)" using eq(1) by (simp add: fixContent_fixed_iff)
  moreover have "\<not> hyphenPair x y" using nm eq(1) by simp
  ultimately show ?case by (simp add: pass1Stable_def)
qed

text \<open>
  C2, amended. For every section sequence, applying Pass 1 (\<open>mergeHyphenatedWords\<close>, with
  \<open>fixHyphenatedWords\<close> on each content) twice yields exactly the same section sequence as
  applying it once if and only if the once-repaired sequence is stable: no content of it
  holds a match of the hyphenation pattern and no two adjacent paragraphs of it are a
  pair the hyphen merge joins. Hyphens that the pattern does not match (\<open>k-means\<close>,
  \<open>2019-2020\<close>) may stay.
\<close>

theorem pass1_idempotent_iff_stable:
  "mergeHyphenatedWords (mergeHyphenatedWords ss) = mergeHyphenatedWords ss \<longleftrightarrow>
   pass1Stable (mergeHyphenatedWords ss)"
  using mergeHyphenatedWords_fixed [of "mergeHyphenatedWords ss"]
    mergeHyphenatedWords_stable [of "mergeHyphenatedWords ss"]
  by blast

theorem pass1_idempotent_iff_stable_witness:
  "mergeHyphenatedWords
     [createSection Paragraph (''it-'' @ [CHR 0x0A] @ ''eratively uses k-means'') 0 [],
      createSection Paragraph ''in 2019-2020'' 0 []] =
     [createSection Paragraph ''iteratively uses k-means'' 0 [],
      createSection Paragraph ''in 2019-2020'' 0 []] \<and>
   pass1Stable
     [createSection Paragraph ''iteratively uses k-means'' 0 [],
      createSection Paragraph ''in 2019-2020'' 0 []] \<and>
   mergeHyphenatedWords
     (mergeHyphenatedWords
        [createSection Paragraph (''it-'' @ [CHR 0x0A] @ ''eratively uses k-means'') 0 [],
         createSection Paragraph ''in 2019-2020'' 0 []]) =
   mergeHyphenatedWords
     [createSection Paragraph (''it-'' @ [CHR 0x0A] @ ''eratively uses k-means'') 0 [],
      createSection Paragraph ''in 2019-2020'' 0 []]"
proof -
  have e: "mergeHyphenatedWords
     [createSection Paragraph (''it-'' @ [CHR 0x0A] @ ''eratively uses k-means'') 0 [],
      createSection Paragraph ''in 2019-2020'' 0 []] =
     [createSection Paragraph ''iteratively uses k-means'' 0 [],
      createSection Paragraph ''in 2019-2020'' 0 []]"
    "pass1Stable
     [createSection Paragraph ''iteratively uses k-means'' 0 [],
      createSection Paragraph ''in 2019-2020'' 0 []]"
    by code_simp+
  show ?thesis
    using pass1_idempotent_iff_stable
      [of "[createSection Paragraph (''it-'' @ [CHR 0x0A] @ ''eratively uses k-means'') 0 [],
            createSection Paragraph ''in 2019-2020'' 0 []]"] e
    by simp
qed

section \<open>Pages of a document\<close>

text \<open>
  C1, as stated, fails: \<open>extractSectionsFromDocument\<close> runs the merge passes inside
  \<open>parseHTMLIntoBlocks\<close>, page by page, and none on the concatenated sections. A sentence
  that ends page 0 without punctuation and goes on in lower case on page 1 stays two
  paragraphs.
\<close>

theorem extract_pages_not_merged:
  "extractSectionsFromDocument
     [[Element ''p'' [] [TextNode ''The cat'']], [Element ''p'' [] [TextNode ''sat down.'']]] =
     [createSection Paragraph ''The cat'' 0 [], createSection Paragraph ''sat down.'' 0 []] \<and>
   extractSectionsFromDocument
     [[Element ''p'' [] [TextNode ''The cat'']], [Element ''p'' [] [TextNode ''sat down.'']]] \<noteq>
     [createSection Paragraph ''The cat sat down.'' 0 []]"
  by code_simp

lemma extractLoop_concat: "extractLoop doc acc = acc @ concat (map parseHTMLIntoBlocks doc)"
  by (induction doc arbitrary: acc) auto

text \<open>
  C1, amended. When a document's pages are segmented and the results concatenated in page
  order (\<open>extractSectionsFromDocument\<close> calling \<open>parseHTMLIntoBlocks\<close> per page), the
  result is the concatenation of the pages' own section sequences: the last section of
  page N and the first section of page N+1 stay two adjacent sections. A paragraph without
  terminal punctuation and a paragraph that begins with a lower-case letter are merged
  into a single paragraph of both contents where Pass 2 (\<open>mergeAdjacentParagraphs\<close>) gets
  the two in one sequence, which is the case only for paragraphs of one
  \<open>parseHTMLIntoBlocks\<close> call.
\<close>

theorem extract_per_page:
  "extractSectionsFromDocument doc = concat (map parseHTMLIntoBlocks doc) \<and>
   (parseHTMLIntoBlocks pageN = xs @ [a] \<and> parseHTMLIntoBlocks pageN1 = b # ys \<longrightarrow>
      extractSectionsFromDocument (before @ [pageN, pageN1] @ after) =
        concat (map parseHTMLIntoBlocks before) @ xs @ [a, b] @ ys @
        concat (map parseHTMLIntoBlocks after)) \<and>
   (type a = Paragraph \<and> type b = Paragraph \<and> \<not> endsWithPunctuation (trim (content a)) \<and>
    specBeginsLowercase (trim (content b)) \<longrightarrow>
      mergeAdjacentParagraphs [a, b] = [createSection Paragraph (content a @ '' '' @ content b) 0 []])"
proof -
  have m: "mergesPair a b"
    if "type a = Paragraph" "type b = Paragraph" "\<not> endsWithPunctuation (trim (content a))"
      "specBeginsLowercase (trim (content b))"
  proof -
    have "startsLowercase (trim (content b))"
      using that(4) by (rule specBeginsLowercase_startsLowercase)
    moreover have "trim (content b) \<noteq> []"
      using that(4) by (auto simp: specBeginsLowercase_def)
    ultimately show ?thesis
      using that by (simp add: mergesPair_def shouldMerge_def)
  qed
  show ?thesis
    using m by (auto simp: extractSectionsFromDocument_def extractLoop_concat mergeAdjacentParagraphs_pair)
qed

theorem extract_per_page_witness:
  "extractSectionsFromDocument
     ([] @ [[Element ''p'' [] [TextNode ''The cat'']], [Element ''p'' [] [TextNode ''sat down.'']]] @ []) =
     [createSection Paragraph ''The cat'' 0 [], createSection Paragraph ''sat down.'' 0 []] \<and>
   mergeAdjacentParagraphs
     [createSection Paragraph ''The cat'' 0 [], createSection Paragraph ''sat down.'' 0 []] =
     [createSection Paragraph ''The cat sat down.'' 0 []]"
proof -
  have e: "parseHTMLIntoBlocks [Element ''p'' [] [TextNode ''The cat'']] = [] @ [createSection Paragraph ''The cat'' 0 []]"
    "parseHTMLIntoBlocks [Element ''p'' [] [TextNode ''sat down.'']] = createSection Paragraph ''sat down.'' 0 [] # []"
    "type (createSection Paragraph ''The cat'' 0 []) = Paragraph"
    "type (createSection Paragraph ''sat down.'' 0 []) = Paragraph"
    "\<not> endsWithPunctuation (trim (content (createSection Paragraph ''The cat'' 0 [])))"
    "specBeginsLowercase (trim (content (createSection Paragraph ''sat down.'' 0 [])))"
    "content (createSection Paragraph ''The cat'' 0 []) @ '' '' @ content (createSection Paragraph ''sat down.'' 0 []) = ''The cat sat down.''"
    by code_simp+
  show ?thesis
    using extract_per_page [of "[[Element ''p'' [] [TextNode ''The cat'']], [Element ''p'' [] [TextNode ''sat down.'']]]"
        "[Element ''p'' [] [TextNode ''The cat'']]" "[]" "createSection Paragraph ''The cat'' 0 []"
        "[Element ''p'' [] [TextNode ''sat down.'']]" "createSection Paragraph ''sat down.'' 0 []" "[]" "[]" "[]"] e
    by simp
qed

section \<open>Invariants of the sections\<close>

lemma dropWhile_keeps: "x \<in> set xs \<Longrightarrow> \<not> P x \<Longrightarrow> x \<in> set (dropWhile P xs)"
  by (induction xs) auto

lemma trim_keeps: "c \<in> set s \<Longrightarrow> \<not> isSpace c \<Longrightarrow> c \<in> set (trim s)"
  by (simp add: trim_def dropWhile_keeps)

lemma trim_has_nonspace: "trim s \<noteq> [] \<Longrightarrow> \<exists>c \<in> set s. \<not> isSpace c"
proof -
  assume "trim s \<noteq> []"
  then have ne: "dropWhile isSpace s \<noteq> []"
    by (cases "dropWhile isSpace s = []") (simp_all add: trim_def)
  then have "\<not> isSpace (hd (dropWhile isSpace s))"
    by (rule hd_dropWhile)
  moreover have "hd (dropWhile isSpace s) \<in> set s"
    using ne set_dropWhileD [of "hd (dropWhile isSpace s)" isSpace s] by simp
  ultimately show ?thesis by blast
qed

lemma trim_nonempty_iff: "trim s \<noteq> [] \<longleftrightarrow> (\<exists>c \<in> set s. \<not> isSpace c)"
  using trim_has_nonspace [of s] trim_keeps [of _ s] by fastforce

lemma trim_trim_nonempty: "trim s \<noteq> [] \<Longrightarrow> trim (trim s) \<noteq> []"
  using trim_has_nonspace [of s] trim_keeps [of _ s] trim_keeps [of _ "trim s"] by fastforce

lemma hyphenMatchAt_letter: "hyphenMatchAt s = Some (w, l, rest) \<Longrightarrow> isLowerAZ l"
  by (auto simp: hyphenMatchAt_def Let_def split: if_splits list.splits)

lemma isLowerAZ_not_space: "isLowerAZ l \<Longrightarrow> \<not> isSpace l"
  by (auto simp: isLowerAZ_def isSpace_def)

lemma fixHyphenatedWords_nonspace:
  "\<exists>c \<in> set s. \<not> isSpace c \<Longrightarrow> \<exists>c \<in> set (fixHyphenatedWords s). \<not> isSpace c"
proof (induction s rule: fixHyphenatedWords.induct)
  case 1
  then show ?case by simp
next
  case (2 c cs)
  show ?case
  proof (cases "hyphenMatchAt (c # cs)")
    case None
    show ?thesis
    proof (cases "isSpace c")
      case True
      then have "\<exists>c \<in> set cs. \<not> isSpace c" using "2.prems" by auto
      then have "\<exists>c \<in> set (fixHyphenatedWords cs). \<not> isSpace c"
        using "2.IH"(1) None by simp
      then show ?thesis using None by auto
    next
      case False
      then show ?thesis using None by auto
    qed
  next
    case (Some m)
    obtain w l rest where m: "m = (w, l, rest)" by (cases m)
    have "\<not> isSpace l"
      using Some m hyphenMatchAt_letter isLowerAZ_not_space by blast
    then show ?thesis using Some m by auto
  qed
qed

lemma fixHyphenatedWords_trim_nonempty:
  "trim s \<noteq> [] \<Longrightarrow> trim (fixHyphenatedWords s) \<noteq> []"
  by (simp add: trim_nonempty_iff fixHyphenatedWords_nonspace)

lemma wellFormed_fixContent: "wellFormed s \<Longrightarrow> wellFormed (fixContent s)"
  by (auto simp: wellFormed_def fixContent_def fixHyphenatedWords_trim_nonempty)

lemma wellFormed_hyphen_merge:
  assumes "0 < length (trim t)"
  shows "wellFormed (createSection Paragraph (fixHyphenatedWords (u @ trim t)) 0 [])"
proof -
  have "\<exists>c \<in> set (trim t). \<not> isSpace c"
    using assms trim_trim_nonempty [of t] by (simp add: trim_nonempty_iff)
  then have "\<exists>c \<in> set (u @ trim t). \<not> isSpace c" by auto
  then have "trim (fixHyphenatedWords (u @ trim t)) \<noteq> []"
    by (simp add: trim_nonempty_iff fixHyphenatedWords_nonspace)
  then show ?thesis by (simp add: wellFormed_def createSection_def)
qed

lemma mergeHyphenatedWords_wellFormed:
  "list_all wellFormed ss \<Longrightarrow> list_all wellFormed (mergeHyphenatedWords ss)"
  by (induction ss rule: mergeHyphenatedWords.induct)
     (auto simp: wellFormed_fixContent wellFormed_hyphen_merge)

lemma wellFormed_paragraph_merge:
  assumes "wellFormed a" and "type a = Paragraph"
  shows "wellFormed (createSection Paragraph (content a @ CHR '' '' # t) 0 [])"
  using assms by (auto simp: wellFormed_def createSection_def trim_nonempty_iff)

lemma scanParagraphs_wellFormed:
  "list_all wellFormed ss \<Longrightarrow> list_all wellFormed (fst (scanParagraphs ss))"
  by (induction ss rule: induct_list012)
     (auto simp: scanParagraphs_pair mergesPair_def wellFormed_paragraph_merge
        simp del: scanParagraphs.simps(3))

lemma mergeAdjacentParagraphs_wellFormed:
  "list_all wellFormed ss \<Longrightarrow> list_all wellFormed (mergeAdjacentParagraphs ss)"
proof (induction ss rule: mergeAdjacentParagraphs.induct)
  case (1 merged)
  obtain newMerged changed where sc: "scanParagraphs merged = (newMerged, changed)"
    by (cases "scanParagraphs merged")
  have w: "list_all wellFormed newMerged"
    using scanParagraphs_wellFormed [OF "1.prems"] sc by simp
  show ?case
  proof (cases changed)
    case True
    then show ?thesis
      using "1.IH" sc w by (simp add: mergeAdjacentParagraphs.simps [of merged])
  next
    case False
    then show ?thesis
      using sc w by (simp add: mergeAdjacentParagraphs.simps [of merged])
  qed
qed

lemma wellFormed_heading_merge:
  assumes "wellFormed a" and "type a = Heading" and "l = level a"
  shows "wellFormed (createSection Heading (content a @ CHR '' '' # t) l [])"
  using assms by (auto simp: wellFormed_def createSection_def trim_nonempty_iff)

lemma wellFormed_remaining:
  "remainingLines b \<noteq> [] \<Longrightarrow> wellFormed (createSection Paragraph (remainingLines b) 0 [])"
  by (simp add: wellFormed_def createSection_def remainingLines_def trim_trim_nonempty)

lemma mergeAdjacentHeadings_wellFormed:
  "list_all wellFormed ss \<Longrightarrow> list_all wellFormed (mergeAdjacentHeadings ss)"
  by (induction ss rule: mergeAdjacentHeadings.induct)
     (auto simp: wellFormed_heading_merge wellFormed_remaining)

lemma headingTagLevel_range: "headingTagLevel tg = Some l \<Longrightarrow> 1 \<le> l \<and> l \<le> 6"
  by (auto simp: headingTagLevel_def split: list.splits if_splits)

lemma getHeadingLevel_range: "1 \<le> getHeadingLevel fs b \<and> getHeadingLevel fs b \<le> 3"
  by (simp add: getHeadingLevel_def)

lemma extractNestedHeading_wellFormed:
  assumes "extractNestedHeading el = Some (h, r)"
  shows "wellFormed h \<and> (r \<noteq> [] \<longrightarrow> trim r \<noteq> [])"
  using assms
  by (auto simp: extractNestedHeading_def Let_def wellFormed_def createSection_def
        trim_trim_nonempty
      dest: headingTagLevel_range split: option.splits if_splits)

lemma processImage_wellFormed:
  "processImage p el processed = (Some s, processed') \<Longrightarrow> wellFormed s"
  by (auto simp: processImage_def wellFormed_def createSection_def split: option.splits if_splits)

lemma headingTagLevel_parseInt: "headingTagLevel tg = Some l \<Longrightarrow> parseIntCharAt1 tg = Some l"
  by (auto simp: headingTagLevel_def parseIntCharAt1_def isDigit_def split: list.splits if_splits)

lemma processHeading_wellFormed:
  assumes "headingTagLevel (tagName el) \<noteq> None"
    and "processHeading p el processed = (Some s, processed')"
  shows "wellFormed s"
proof -
  obtain l where l: "headingTagLevel (tagName el) = Some l" using assms(1) by auto
  have "parseIntCharAt1 (tagName el) = Some l" using l by (rule headingTagLevel_parseInt)
  then show ?thesis
    using assms(2) headingTagLevel_range [OF l]
    by (auto simp: processHeading_def Let_def wellFormed_def createSection_def trim_trim_nonempty
        split: if_splits)
qed

lemma wellFormed_text_heading:
  "trim t \<noteq> [] \<Longrightarrow> wellFormed (createSection Heading (trim t) (getHeadingLevel fs b) [])"
  using getHeadingLevel_range [of fs b]
  by (simp add: wellFormed_def createSection_def trim_trim_nonempty)

lemma wellFormed_text_paragraph:
  "trim t \<noteq> [] \<Longrightarrow> wellFormed (createSection Paragraph (trim t) 0 [])"
  by (simp add: wellFormed_def createSection_def trim_trim_nonempty)

lemma wellFormed_remaining_text:
  "trim r \<noteq> [] \<Longrightarrow> wellFormed (createSection Paragraph r 0 [])"
  by (simp add: wellFormed_def createSection_def)

lemma processTextElement_wellFormed:
  assumes "processTextElement p el tg processed = (Some ss, processed')"
  shows "list_all wellFormed ss"
proof (cases "trim (textContent el) = []")
  case True
  then show ?thesis using assms by (simp add: processTextElement_def)
next
  case False
  note ne = False
  show ?thesis
  proof (cases "if tg = ''p'' \<or> tg = ''div'' then extractNestedHeading el else None")
    case None
    then show ?thesis
      using assms ne
      by (auto simp: processTextElement_def Let_def wellFormed_text_heading wellFormed_text_paragraph
          split: if_splits)
  next
    case (Some hr)
    obtain h r where hr: "hr = (h, r)" by (cases hr)
    have "extractNestedHeading el = Some (h, r)"
      using Some hr by (auto split: if_splits)
    then have "wellFormed h \<and> (r \<noteq> [] \<longrightarrow> trim r \<noteq> [])"
      by (rule extractNestedHeading_wellFormed)
    then show ?thesis
      using assms ne Some hr
      by (auto simp: processTextElement_def Let_def wellFormed_remaining_text)
  qed
qed

lemma visit_wellFormed:
  assumes "list_all wellFormed (snd st)"
  shows "list_all wellFormed (snd (visit p el st))"
proof (cases "headingTagLevel (tagName el) \<noteq> None")
  case True
  show ?thesis
    using assms True
    by (auto simp: visit_def Let_def
        dest: processImage_wellFormed processHeading_wellFormed [OF True]
        split: prod.splits option.splits)
next
  case False
  then show ?thesis
    using assms
    by (auto simp: visit_def Let_def
        dest: processImage_wellFormed processTextElement_wellFormed
        split: prod.splits option.splits)
qed

lemma walk_wellFormed:
  "list_all wellFormed (snd st) \<Longrightarrow> list_all wellFormed (snd (walk p n st))"
  "list_all wellFormed (snd st) \<Longrightarrow> list_all wellFormed (snd (walkChildren p i ns st))"
  by (induction p n st and p i ns st rule: walk_walkChildren.induct)
     (simp_all add: visit_wellFormed)

lemma segment_wellFormed: "list_all wellFormed (segment nodes)"
  unfolding segment_def by (rule walk_wellFormed(2)) simp

lemma parseHTMLIntoBlocks_wellFormed: "list_all wellFormed (parseHTMLIntoBlocks nodes)"
  unfolding parseHTMLIntoBlocks_def Let_def
  by (intro mergeAdjacentHeadings_wellFormed mergeAdjacentParagraphs_wellFormed
        mergeHyphenatedWords_wellFormed segment_wellFormed)

lemma extractSectionsFromDocument_wellFormed:
  "list_all wellFormed (extractSectionsFromDocument doc)"
proof -
  have "list_all wellFormed acc \<Longrightarrow> list_all wellFormed (extractLoop doc acc)" for acc
    by (induction doc arbitrary: acc) (simp_all add: parseHTMLIntoBlocks_wellFormed)
  then show ?thesis by (simp add: extractSectionsFromDocument_def)
qed

text \<open>
  C10. Heading level range. Every heading section the pipeline produces has a level from
  1 to 6: the headings of the segmenter (from a heading tag, from the classifier, from a
  nested heading) and the headings after the three passes, for one page
  (\<open>parseHTMLIntoBlocks\<close>) and for a document (\<open>extractSectionsFromDocument\<close>). So the
  renderer's clamp at 6 and its fallback for level 0 leave the level of such a section as
  it is.
\<close>

theorem heading_levels_in_range:
  "(\<forall>s \<in> set (segment nodes). type s = Heading \<longrightarrow> 1 \<le> level s \<and> level s \<le> 6) \<and>
   (\<forall>s \<in> set (parseHTMLIntoBlocks nodes).
      type s = Heading \<longrightarrow>
        1 \<le> level s \<and> level s \<le> 6 \<and> min (if level s \<noteq> 0 then level s else 2) 6 = level s) \<and>
   (\<forall>s \<in> set (extractSectionsFromDocument doc).
      type s = Heading \<longrightarrow>
        1 \<le> level s \<and> level s \<le> 6 \<and> min (if level s \<noteq> 0 then level s else 2) 6 = level s)"
  using segment_wellFormed [of nodes] parseHTMLIntoBlocks_wellFormed [of nodes]
    extractSectionsFromDocument_wellFormed [of doc]
  by (auto simp: list_all_iff wellFormed_def)

theorem heading_levels_in_range_witness:
  "parseHTMLIntoBlocks
     [Element ''h2'' [] [TextNode ''Title''],
      Element ''p'' [] [Element ''span'' [(''style'', ''font-size:19pt'')] [TextNode ''Big''],
                        TextNode '' and the rest.'']] =
     [createSection Heading ''Title'' 2 [], createSection Heading ''Big and the rest.'' 1 []] \<and>
   1 \<le> level (createSection Heading ''Big and the rest.'' 1 []) \<and>
   level (createSection Heading ''Big and the rest.'' 1 []) \<le> 6"
proof -
  have e: "parseHTMLIntoBlocks
     [Element ''h2'' [] [TextNode ''Title''],
      Element ''p'' [] [Element ''span'' [(''style'', ''font-size:19pt'')] [TextNode ''Big''],
                        TextNode '' and the rest.'']] =
     [createSection Heading ''Title'' 2 [], createSection Heading ''Big and the rest.'' 1 []]"
    "type (createSection Heading ''Big and the rest.'' 1 []) = Heading"
    by code_simp+
  show ?thesis
    using heading_levels_in_range
      [of "[Element ''h2'' [] [TextNode ''Title''],
            Element ''p'' [] [Element ''span'' [(''style'', ''font-size:19pt'')] [TextNode ''Big''],
                              TextNode '' and the rest.'']]" "[]"] e
    by simp
qed

text \<open>
  C9. Non-empty sections. In the section sequence \<open>parseHTMLIntoBlocks\<close> returns after
  the three merge passes, and so in the sequence of a document, every section whose type
  is not \<open>image\<close> has a content that is not empty after trimming.
\<close>

theorem sections_not_empty:
  "(\<forall>s \<in> set (parseHTMLIntoBlocks nodes). type s \<noteq> Image \<longrightarrow> trim (content s) \<noteq> []) \<and>
   (\<forall>s \<in> set (extractSectionsFromDocument doc). type s \<noteq> Image \<longrightarrow> trim (content s) \<noteq> [])"
  using parseHTMLIntoBlocks_wellFormed [of nodes] extractSectionsFromDocument_wellFormed [of doc]
  by (auto simp: list_all_iff wellFormed_def)

theorem sections_not_empty_witness:
  "parseHTMLIntoBlocks
     [Element ''p'' [] [TextNode ''   ''], Element ''img'' [(''src'', ''a.png'')] [],
      Element ''div'' [] [TextNode '' Some text. '']] =
     [createSection Image [] 0 [\<lparr> src = ''a.png'' \<rparr>], createSection Paragraph ''Some text.'' 0 []] \<and>
   trim (content (createSection Paragraph ''Some text.'' 0 [])) \<noteq> []"
proof -
  have e: "parseHTMLIntoBlocks
     [Element ''p'' [] [TextNode ''   ''], Element ''img'' [(''src'', ''a.png'')] [],
      Element ''div'' [] [TextNode '' Some text. '']] =
     [createSection Image [] 0 [\<lparr> src = ''a.png'' \<rparr>], createSection Paragraph ''Some text.'' 0 []]"
    "type (createSection Paragraph ''Some text.'' 0 []) \<noteq> Image"
    by code_simp+
  show ?thesis
    using sections_not_empty
      [of "[Element ''p'' [] [TextNode ''   ''], Element ''img'' [(''src'', ''a.png'')] [],
            Element ''div'' [] [TextNode '' Some text. '']]" "[]"] e
    by simp
qed

section \<open>Page markers\<close>

lemma visit_unblocked:
  assumes "p \<notin> S" and "\<not> isPageMarker el" and "\<not> isParentProcessed p S"
  shows "visit p el (S, secs) =
           (case emitted el of None \<Rightarrow> (S, secs) | Some ss \<Rightarrow> (insert p S, secs @ ss))"
  using assms
  by (auto simp: visit_def emitted_def Let_def processImage_def processHeading_def
        processTextElement_def
      split: option.splits prod.splits if_splits)

lemma visit_skipped:
  "p \<in> S \<or> isPageMarker el \<or> isParentProcessed p S \<Longrightarrow> visit p el (S, secs) = (S, secs)"
  by (auto simp: visit_def Let_def)

lemma isParentProcessed_agree:
  "(\<And>q. length q < length p \<Longrightarrow> (q \<in> S') = (q \<in> S)) \<Longrightarrow>
   isParentProcessed p S' = isParentProcessed p S"
proof (induction p)
  case Nil
  show ?case by simp
next
  case (Cons i p)
  have "isParentProcessed p S' = isParentProcessed p S"
    using Cons.prems by (intro Cons.IH) simp
  moreover have "(p \<in> S') = (p \<in> S)"
    using Cons.prems [of p] by simp
  ultimately show ?case by simp
qed

lemma below_length: "below p q \<Longrightarrow> length p \<le> length q"
  by (auto simp: below_def)

lemma below_child: "below (j # p) q \<Longrightarrow> below p q"
  by (auto simp: below_def)

lemma below_siblings: "below (i # p) q \<Longrightarrow> below (j # p) q \<Longrightarrow> i = j"
  by (auto simp: below_def)

lemma below_self: "below p p"
  by (simp add: below_def)

lemma below_not_shorter: "below (j # p) q \<Longrightarrow> length p < length q"
  by (auto simp: below_def)

lemma walk_seg:
  "p \<noteq> [] \<longrightarrow> (\<forall>q \<in> fst st. \<not> below p q) \<longrightarrow>
     walkSpec p st (walk p n st) (seg (isParentProcessed p (fst st)) n)"
  "(\<forall>q \<in> fst st. \<forall>j\<ge>i. \<not> below (j # p) q) \<longrightarrow>
     childrenSpec p i st (walkChildren p i ns st) (segs (childrenBlocked p (fst st)) ns)"
proof (induction p n st and p i ns st rule: walk_walkChildren.induct)
  case (1 p t st)
  show ?case by (simp add: walkSpec_def)
next
  case (2 p tg as cs st)
  define el where "el = Element tg as cs"
  define S where "S = fst st"
  define secs where "secs = snd st"
  have st: "st = (S, secs)" by (simp add: S_def secs_def)
  show ?case
  proof (intro impI)
    assume pne: "p \<noteq> []" and fresh: "\<forall>q \<in> fst st. \<not> below p q"
    have pS: "p \<notin> S" using fresh below_self [of p] by (auto simp: S_def)
    have freshc: "\<forall>q \<in> S. \<forall>j\<ge>0. \<not> below (j # p) q"
      using fresh below_child by (auto simp: S_def)
    show "walkSpec p st (walk p (Element tg as cs) st)
            (seg (isParentProcessed p (fst st)) (Element tg as cs))"
    proof (cases "isPageMarker el \<or> isParentProcessed p S")
      case True
      then have v: "visit p el st = st" unfolding st by (intro visit_skipped) simp
      have "childrenSpec p 0 st (walkChildren p 0 cs st) (segs (childrenBlocked p S) cs)"
        using "2.IH" freshc v by (simp add: el_def S_def)
      moreover have "segs (childrenBlocked p S) cs = seg (isParentProcessed p S) el"
        using True pS pne by (auto simp: childrenBlocked_def el_def)
      ultimately show ?thesis
        using v below_child by (auto simp: walkSpec_def childrenSpec_def el_def S_def)
    next
      case False
      then have v: "visit p el st =
          (case emitted el of None \<Rightarrow> (S, secs) | Some ss \<Rightarrow> (insert p S, secs @ ss))"
        unfolding st using pS by (intro visit_unblocked) simp_all
      show ?thesis
      proof (cases "emitted el")
        case None
        then have v': "visit p el st = st" using v st by simp
        have "childrenSpec p 0 st (walkChildren p 0 cs st) (segs (childrenBlocked p S) cs)"
          using "2.IH" freshc v' by (simp add: el_def S_def)
        moreover have "segs (childrenBlocked p S) cs = seg (isParentProcessed p S) el"
          using False None pS pne by (auto simp: childrenBlocked_def el_def)
        ultimately show ?thesis
          using v' below_child by (auto simp: walkSpec_def childrenSpec_def el_def S_def)
      next
        case (Some ss)
        define st' where "st' = (insert p S, secs @ ss)"
        have v': "visit p el st = st'" using v Some by (simp add: st'_def)
        have fresh': "\<forall>q \<in> fst st'. \<forall>j\<ge>0. \<not> below (j # p) q"
          using freshc below_not_shorter [of _ p p] by (auto simp: st'_def)
        have "childrenSpec p 0 st' (walkChildren p 0 cs st') (segs (childrenBlocked p (fst st')) cs)"
          using "2.IH" fresh' v' by (simp add: el_def)
        moreover have "childrenBlocked p (fst st')" using pne by (simp add: childrenBlocked_def st'_def)
        moreover have "seg (isParentProcessed p S) el = ss @ segs True cs"
          using False Some by (auto simp: el_def)
        ultimately show ?thesis
          using v' below_child below_self [of p]
          by (auto simp: walkSpec_def childrenSpec_def el_def S_def st'_def secs_def)
      qed
    qed
  qed
next
  case (3 p i st)
  show ?case by (simp add: childrenSpec_def)
next
  case (4 p i c cs st)
  define S where "S = fst st"
  define st1 where "st1 = walk (i # p) c st"
  show ?case
  proof (intro impI)
    assume fresh: "\<forall>q \<in> fst st. \<forall>j\<ge>i. \<not> below (j # p) q"
    have w1: "walkSpec (i # p) st st1 (seg (isParentProcessed (i # p) S) c)"
      using "4.IH"(1) fresh by (simp add: st1_def S_def)
    have new: "q \<in> S \<or> below (i # p) q" if "q \<in> fst st1" for q
      using w1 that by (auto simp: walkSpec_def S_def)
    have fresh1: "\<forall>q \<in> fst st1. \<forall>j\<ge>Suc i. \<not> below (j # p) q"
    proof (intro ballI allI impI)
      fix q j
      assume q: "q \<in> fst st1" and j: "Suc i \<le> j"
      show "\<not> below (j # p) q"
      proof (cases "q \<in> S")
        case True
        then show ?thesis using fresh j by (auto simp: S_def)
      next
        case False
        then have "below (i # p) q" using new q by auto
        then show ?thesis using below_siblings [of i p q j] j by auto
      qed
    qed
    have w2: "childrenSpec p (Suc i) st1 (walkChildren p (Suc i) cs st1)
                (segs (childrenBlocked p (fst st1)) cs)"
      using "4.IH"(2) fresh1 by (simp add: st1_def)
    have agree: "(q \<in> fst st1) = (q \<in> S)" if "length q \<le> length p" for q
      using new [of q] w1 that below_not_shorter [of i p q] by (auto simp: walkSpec_def S_def)
    have "isParentProcessed p (fst st1) = isParentProcessed p S"
      by (rule isParentProcessed_agree) (simp add: agree)
    then have cb: "childrenBlocked p (fst st1) = childrenBlocked p S"
      using agree [of p] by (simp add: childrenBlocked_def)
    have ip: "isParentProcessed (i # p) S = childrenBlocked p S"
      by (simp add: childrenBlocked_def)
    show "childrenSpec p i st (walkChildren p i (c # cs) st)
            (segs (childrenBlocked p (fst st)) (c # cs))"
      using w1 w2 unfolding cb ip
      apply (simp add: childrenSpec_def walkSpec_def st1_def [symmetric] S_def [symmetric])
      by (metis Suc_leD le_refl subset_trans)
  qed
qed

lemma segment_segs: "segment nodes = segs False nodes"
  using walk_seg(2) [of "({}, [])" 0 "[]" nodes]
  by (simp add: segment_def childrenSpec_def childrenBlocked_def)

lemma segs_append: "segs b (xs @ ys) = segs b xs @ segs b ys"
  by (induction xs) auto

text \<open>
  C7. Page-marker transparency. The visit of a \<open>div\<close> whose \<open>id\<close> is \<open>page\<close> and digits
  changes nothing: it adds no section and does not put the element into the set of
  processed elements. The walk goes on with its child nodes from that same state, so the
  elements below it are visited and segmented as they are without the wrapper: a page
  marker among the nodes of the root can be replaced by its child nodes without a change
  of the segmenter's sections, or of the parser's result.
\<close>

theorem page_marker_transparent:
  assumes "isPageMarker (Element tg as kids)"
  shows "visit p (Element tg as kids) st = st \<and>
         walk p (Element tg as kids) st = walkChildren p 0 kids st \<and>
         segment (pre @ Element tg as kids # post) = segment (pre @ kids @ post) \<and>
         parseHTMLIntoBlocks (pre @ Element tg as kids # post) = parseHTMLIntoBlocks (pre @ kids @ post)"
proof -
  have v: "visit p (Element tg as kids) st = st"
    using assms visit_skipped [of p "fst st" "Element tg as kids" "snd st"] by simp
  have s: "segment (pre @ Element tg as kids # post) = segment (pre @ kids @ post)"
    using assms by (simp add: segment_segs segs_append)
  show ?thesis
    using v s by (simp add: parseHTMLIntoBlocks_def)
qed

theorem page_marker_transparent_witness:
  "isPageMarker (Element ''div'' [(''id'', ''page12'')] [Element ''p'' [] [TextNode ''Hello'']]) \<and>
   visit [0] (Element ''div'' [(''id'', ''page12'')] [Element ''p'' [] [TextNode ''Hello'']]) ({}, []) = ({}, []) \<and>
   segment [Element ''div'' [(''id'', ''page12'')] [Element ''p'' [] [TextNode ''Hello'']]] =
     [createSection Paragraph ''Hello'' 0 []]"
proof -
  have e: "isPageMarker (Element ''div'' [(''id'', ''page12'')] [Element ''p'' [] [TextNode ''Hello'']])"
    "segment [Element ''p'' [] [TextNode ''Hello'']] = [createSection Paragraph ''Hello'' 0 []]"
    by code_simp+
  show ?thesis
    using page_marker_transparent [OF e(1), of "[0]" "({}, [])" "[]" "[]"] e
    by simp
qed

end
